theory Spec2Isabelle
  imports Main "HOL-Library.Product_Lexorder"
begin

section \<open>Data model\<close>

text \<open>
  The three scripts \<^verbatim>\<open>snakeGameAStar.py\<close>, \<^verbatim>\<open>snakeGameHeuristic.py\<close> and
  \<^verbatim>\<open>snakeGameHybrid.py\<close> share their data: a cell is a pair of Python integers, the
  snake is a list of cells with the head first, the barriers are a set of cells, a move
  is one of four strings, and the dictionary \<^verbatim>\<open>moves\<close> maps each of them to a unit
  offset. Python iterates over a dictionary in insertion order, which is the order of
  \<open>directions\<close>.
\<close>

type_synonym cell = "int \<times> int"

datatype direction = UP | DOWN | LEFT | RIGHT

datatype error = IndexError | ValueError

fun offset :: "direction \<Rightarrow> int \<times> int" where
  "offset UP = (0, -1)"
| "offset DOWN = (0, 1)"
| "offset LEFT = (-1, 0)"
| "offset RIGHT = (1, 0)"

definition directions :: "direction list" where
  "directions = [UP, DOWN, LEFT, RIGHT]"

text \<open>\<^verbatim>\<open>(c[0] + offset[0], c[1] + offset[1])\<close>, the cell one step from \<open>c\<close>.\<close>

definition step :: "cell \<Rightarrow> direction \<Rightarrow> cell" where
  "step c d = (fst c + fst (offset d), snd c + snd (offset d))"

definition manhattanDistance :: "cell \<Rightarrow> cell \<Rightarrow> int" where
  "manhattanDistance a b = \<bar>fst a - fst b\<bar> + \<bar>snd a - snd b\<bar>"

text \<open>\<^verbatim>\<open>0 <= x < gridSize[0] and 0 <= y < gridSize[1]\<close>\<close>

definition inBounds :: "int \<times> int \<Rightarrow> cell \<Rightarrow> bool" where
  "inBounds gs c \<longleftrightarrow> 0 \<le> fst c \<and> fst c < fst gs \<and> 0 \<le> snd c \<and> snd c < snd gs"

section \<open>The validity predicates of the three policies\<close>

text \<open>
  \<^verbatim>\<open>isValid\<close> of \<^verbatim>\<open>aStarPolicy\<close> tests \<^verbatim>\<open>coord not in snake\<close>; the ones of
  \<^verbatim>\<open>heuristicPolicy\<close> and \<^verbatim>\<open>hybridPolicy\<close> test \<^verbatim>\<open>coord not in snake[:-1]\<close>.
  The slice \<^verbatim>\<open>snake[:-1]\<close> is \<open>butlast\<close>, also on the empty list.
\<close>

definition isValidAStar :: "cell list \<Rightarrow> int \<times> int \<Rightarrow> cell set \<Rightarrow> cell \<Rightarrow> bool" where
  "isValidAStar s gs bs coord \<longleftrightarrow> inBounds gs coord \<and> coord \<notin> set s \<and> coord \<notin> bs"

definition isValidHeuristic :: "cell list \<Rightarrow> int \<times> int \<Rightarrow> cell set \<Rightarrow> cell \<Rightarrow> bool" where
  "isValidHeuristic s gs bs coord \<longleftrightarrow>
     inBounds gs coord \<and> coord \<notin> set (butlast s) \<and> coord \<notin> bs"

definition isValidHybrid :: "cell list \<Rightarrow> int \<times> int \<Rightarrow> cell set \<Rightarrow> cell \<Rightarrow> bool" where
  "isValidHybrid s gs bs coord \<longleftrightarrow>
     inBounds gs coord \<and> coord \<notin> set (butlast s) \<and> coord \<notin> bs"

section \<open>heuristicPolicy\<close>

text \<open>
  Python's \<^verbatim>\<open>min(xs, key=k)\<close> and \<^verbatim>\<open>max(xs, key=k)\<close> keep the first element whose
  key is extremal: the running best is replaced only by a strictly better element.
\<close>

definition minBy :: "('a \<Rightarrow> 'k::linorder) \<Rightarrow> 'a \<Rightarrow> 'a list \<Rightarrow> 'a" where
  "minBy k x xs = fold (\<lambda>y best. if k y < k best then y else best) xs x"

definition maxBy :: "('a \<Rightarrow> 'k::linorder) \<Rightarrow> 'a \<Rightarrow> 'a list \<Rightarrow> 'a" where
  "maxBy k x xs = fold (\<lambda>y best. if k best < k y then y else best) xs x"

text \<open>
  The list \<^verbatim>\<open>validMoves\<close> of \<^verbatim>\<open>heuristicPolicy\<close>, for a snake with head \<open>h\<close>.
\<close>

definition validMovesHeuristic ::
  "cell list \<Rightarrow> cell \<Rightarrow> int \<times> int \<Rightarrow> cell set \<Rightarrow> cell \<Rightarrow> (direction \<times> int) list" where
  "validMovesHeuristic s ob gs bs h =
     map (\<lambda>d. (d, manhattanDistance (step h d) ob))
       (filter (\<lambda>d. isValidHeuristic s gs bs (step h d)) directions)"

text \<open>
  \<open>rnd\<close> is the value that \<^verbatim>\<open>random.choice\<close> returns when the failsafe branch is taken.
  \<^verbatim>\<open>snake[0]\<close> raises IndexError on an empty snake.
\<close>

definition heuristicPolicy ::
  "cell list \<Rightarrow> cell \<Rightarrow> int \<times> int \<Rightarrow> cell set \<Rightarrow> direction \<Rightarrow> error + direction" where
  "heuristicPolicy s ob gs bs rnd =
     (case s of
        [] \<Rightarrow> Inl IndexError
      | h # _ \<Rightarrow>
          (case validMovesHeuristic s ob gs bs h of
             [] \<Rightarrow> Inr rnd
           | m # ms \<Rightarrow> Inr (fst (minBy snd m ms))))"

section \<open>The game state and one tick\<close>

text \<open>
  The closure variables of \<^verbatim>\<open>main\<close> that \<^verbatim>\<open>gameLoop\<close> and \<^verbatim>\<open>resetGame\<close> read and
  assign. The clock \<^verbatim>\<open>startTime\<close> only feeds the display and is left out.
\<close>

record game =
  snake :: "cell list"
  orb :: cell
  barriers :: "cell set"
  gridSize :: "int \<times> int"
  score :: int
  highscore :: int

text \<open>
  A call either raises, returns, or, for the rejection samplers, has not returned after
  the random draws it was given.
\<close>

datatype 'a result = Raise error | Pending | Return 'a

text \<open>
  \<^verbatim>\<open>generateOrb\<close> draws cells until one is neither in the snake nor a barrier. \<open>draws\<close>
  are the successive pairs that the two \<^verbatim>\<open>random.randint\<close> calls return;
  \<^verbatim>\<open>random.randint(0, n - 1)\<close> raises ValueError when \<open>n < 1\<close>. The draws are
  arbitrary cells here; \<^verbatim>\<open>randint\<close> only produces cells of the grid.
\<close>

fun firstFree :: "cell list \<Rightarrow> cell set \<Rightarrow> cell list \<Rightarrow> cell result" where
  "firstFree s bs [] = Pending"
| "firstFree s bs (c # cs) = (if c \<notin> set s \<and> c \<notin> bs then Return c else firstFree s bs cs)"

definition generateOrb :: "int \<times> int \<Rightarrow> cell list \<Rightarrow> cell set \<Rightarrow> cell list \<Rightarrow> cell result" where
  "generateOrb gs s bs draws =
     (if fst gs < 1 \<or> snd gs < 1 then Raise ValueError else firstFree s bs draws)"

datatype outcome = GameOver game | Running game

type_synonym policy =
  "cell list \<Rightarrow> cell \<Rightarrow> int \<times> int \<Rightarrow> cell set \<Rightarrow> direction \<Rightarrow> error + direction"

text \<open>
  \<^verbatim>\<open>gameLoop\<close> is the same in the three scripts up to the policy it calls. \<open>GameOver\<close>
  is the early return of the collision branch, which schedules \<^verbatim>\<open>resetGame\<close>;
  \<open>Running\<close> is the normal end of the tick, which schedules the next \<^verbatim>\<open>gameLoop\<close>.
\<close>

definition gameLoop :: "policy \<Rightarrow> direction \<Rightarrow> cell list \<Rightarrow> game \<Rightarrow> outcome result" where
  "gameLoop pol rnd draws g =
     (case pol (snake g) (orb g) (gridSize g) (barriers g) rnd of
        Inl e \<Rightarrow> Raise e
      | Inr nextMove \<Rightarrow>
          (case snake g of
             [] \<Rightarrow> Raise IndexError
           | h # _ \<Rightarrow>
               (let newHead = step h nextMove;
                    score1 = score g - 1
                in if newHead \<in> set (snake g) \<or> newHead \<in> barriers g
                   then Return (GameOver
                          (g\<lparr>score := score1, highscore := max (highscore g) score1\<rparr>))
                   else
                     (let snake1 = newHead # butlast (snake g)
                      in if newHead = orb g
                         then
                           (let snake2 = snake1 @ [last snake1]
                            in case generateOrb (gridSize g) snake2 (barriers g) draws of
                                 Raise e \<Rightarrow> Raise e
                               | Pending \<Rightarrow> Pending
                               | Return orb' \<Rightarrow>
                                   Return (Running
                                     (g\<lparr>snake := snake2, orb := orb', score := score1 + 100\<rparr>)))
                         else Return (Running (g\<lparr>snake := snake1, score := score1\<rparr>))))))"

section \<open>hybridPolicy and its flood fill\<close>

text \<open>
  \<^verbatim>\<open>floodFillArea\<close> keeps a queue (a \<^verbatim>\<open>deque\<close>, popped on the left and appended on the
  right), a set \<^verbatim>\<open>visited\<close> and a counter. \<open>visitNeighbor\<close> is the body of its inner
  \<^verbatim>\<open>for\<close> loop for one offset, \<open>floodLoop\<close> the \<^verbatim>\<open>while queue\<close> loop.
\<close>

definition neighborOffsets :: "(int \<times> int) list" where
  "neighborOffsets = [(0, -1), (0, 1), (-1, 0), (1, 0)]"

definition visitNeighbor ::
  "int \<times> int \<Rightarrow> cell \<Rightarrow> int \<times> int \<Rightarrow> cell set \<times> cell list \<Rightarrow> cell set \<times> cell list" where
  "visitNeighbor gs c off vq =
     (let neighbor = (fst c + fst off, snd c + snd off)
      in if inBounds gs neighbor \<and> neighbor \<notin> fst vq
         then (insert neighbor (fst vq), snd vq @ [neighbor])
         else vq)"

lemma finite_inBounds: "finite {c. inBounds gs c}"
proof -
  have "{c. inBounds gs c} \<subseteq> {0..<fst gs} \<times> {0..<snd gs}"
    by (auto simp: inBounds_def)
  then show ?thesis by (rule finite_subset) simp
qed

lemma visitNeighbor_measure:
  "2 * card ({c. inBounds gs c} - fst (visitNeighbor gs c off vq))
     + length (snd (visitNeighbor gs c off vq))
   \<le> 2 * card ({c. inBounds gs c} - fst vq) + length (snd vq)"
proof -
  let ?n = "(fst c + fst off, snd c + snd off)"
  show ?thesis
  proof (cases "inBounds gs ?n \<and> ?n \<notin> fst vq")
    case True
    then have mem: "?n \<in> {c. inBounds gs c} - fst vq" by simp
    have fin: "finite ({c. inBounds gs c} - fst vq)" using finite_inBounds by simp
    have eq: "{c. inBounds gs c} - insert ?n (fst vq) = ({c. inBounds gs c} - fst vq) - {?n}"
      by blast
    have "card ({c. inBounds gs c} - fst vq) > 0" using mem fin card_gt_0_iff by blast
    moreover have "card ({c. inBounds gs c} - insert ?n (fst vq))
        = card ({c. inBounds gs c} - fst vq) - 1"
      unfolding eq using mem fin by simp
    ultimately show ?thesis using True by (simp add: visitNeighbor_def Let_def)
  next
    case False
    then show ?thesis by (auto simp: visitNeighbor_def Let_def)
  qed
qed

lemma fold_visitNeighbor_measure:
  "2 * card ({c. inBounds gs c} - fst (fold (visitNeighbor gs c) offs vq))
     + length (snd (fold (visitNeighbor gs c) offs vq))
   \<le> 2 * card ({c. inBounds gs c} - fst vq) + length (snd vq)"
proof (induction offs arbitrary: vq)
  case Nil
  show ?case by simp
next
  case (Cons off offs)
  show ?case
    using Cons.IH [of "visitNeighbor gs c off vq"] visitNeighbor_measure [of gs c off vq]
    by simp
qed

function floodLoop :: "int \<times> int \<Rightarrow> cell list \<Rightarrow> cell set \<Rightarrow> int \<Rightarrow> int" where
  "floodLoop gs [] visited area = area"
| "floodLoop gs (c # queue) visited area =
     (let vq = fold (visitNeighbor gs c) neighborOffsets (visited, queue)
      in floodLoop gs (snd vq) (fst vq) (area + 1))"
  by pat_completeness auto
termination
proof (relation "measure (\<lambda>(gs, queue, visited, area).
                   2 * card ({c. inBounds gs c} - visited) + length queue)", goal_cases)
  case 1
  show ?case by simp
next
  case (2 gs c queue visited area vq)
  show ?case
    using fold_visitNeighbor_measure [of gs c neighborOffsets "(visited, queue)"] 2
    by simp
qed

definition floodFillArea :: "cell list \<Rightarrow> int \<times> int \<Rightarrow> cell set \<Rightarrow> cell \<Rightarrow> int" where
  "floodFillArea s gs bs start =
     floodLoop gs [start] (insert start (set (butlast s) \<union> bs)) 0"

text \<open>
  The three scores that \<^verbatim>\<open>hybridPolicy\<close> records for the direction \<open>d\<close> of a snake \<open>s\<close>
  with head \<open>h\<close>. \<^verbatim>\<open>tail\<close> is \<^verbatim>\<open>snake[-1]\<close> when the snake has more than one cell and
  \<^verbatim>\<open>None\<close> otherwise; a tuple is always true in \<^verbatim>\<open>if tail\<close>.
\<close>

definition proximityScore :: "cell \<Rightarrow> cell \<Rightarrow> direction \<Rightarrow> int" where
  "proximityScore ob h d = manhattanDistance (step h d) ob"

definition areaScore :: "cell list \<Rightarrow> int \<times> int \<Rightarrow> cell set \<Rightarrow> cell \<Rightarrow> direction \<Rightarrow> int" where
  "areaScore s gs bs h d = floodFillArea s gs bs (step h d)"

definition tailDistance :: "cell list \<Rightarrow> cell \<Rightarrow> direction \<Rightarrow> int" where
  "tailDistance s h d =
     (case (if length s > 1 then Some (last s) else None) of
        None \<Rightarrow> 0
      | Some tail \<Rightarrow> manhattanDistance (step h d) tail)"

text \<open>
  The entries of \<^verbatim>\<open>validMoves\<close> are \<^verbatim>\<open>(direction, proximityScore, areaScore, tailDistance)\<close>;
  the key of \<^verbatim>\<open>max\<close> is \<^verbatim>\<open>(x[2], x[3], -x[1])\<close>, and Python compares tuples
  lexicographically, as the order on products does here.
\<close>

definition validMovesHybrid ::
  "cell list \<Rightarrow> cell \<Rightarrow> int \<times> int \<Rightarrow> cell set \<Rightarrow> cell \<Rightarrow> (direction \<times> int \<times> int \<times> int) list"
  where
  "validMovesHybrid s ob gs bs h =
     map (\<lambda>d. (d, proximityScore ob h d, areaScore s gs bs h d, tailDistance s h d))
       (filter (\<lambda>d. isValidHybrid s gs bs (step h d)) directions)"

definition hybridKey :: "direction \<times> int \<times> int \<times> int \<Rightarrow> int \<times> int \<times> int" where
  "hybridKey x = (fst (snd (snd x)), snd (snd (snd x)), - fst (snd x))"

definition hybridPolicy ::
  "cell list \<Rightarrow> cell \<Rightarrow> int \<times> int \<Rightarrow> cell set \<Rightarrow> direction \<Rightarrow> error + direction" where
  "hybridPolicy s ob gs bs rnd =
     (case s of
        [] \<Rightarrow> Inl IndexError
      | h # _ \<Rightarrow>
          (case validMovesHybrid s ob gs bs h of
             [] \<Rightarrow> Inr rnd
           | m # ms \<Rightarrow> Inr (fst (maxBy hybridKey m ms))))"

text \<open>
  The cells that the flood fill is meant to count: \<open>start\<close>, and every cell that a chain
  of single steps reaches from it through cells that are in bounds and neither in
  \<^verbatim>\<open>snake[:-1]\<close> nor a barrier.
\<close>

inductive_set reachable :: "cell list \<Rightarrow> int \<times> int \<Rightarrow> cell set \<Rightarrow> cell \<Rightarrow> cell set"
  for s :: "cell list" and gs :: "int \<times> int" and bs :: "cell set" and start :: cell where
  origin: "start \<in> reachable s gs bs start"
| onward: "c \<in> reachable s gs bs start \<Longrightarrow> isValidHybrid s gs bs (step c d)
          \<Longrightarrow> step c d \<in> reachable s gs bs start"

text \<open>
  The well-formed states of the data model: a non-empty snake without repeated cells whose
  consecutive cells are neighbours, snake and barriers inside the grid and disjoint, the
  orb inside the grid and on neither.
\<close>

fun adjacentCells :: "cell list \<Rightarrow> bool" where
  "adjacentCells (a # b # cs) \<longleftrightarrow> manhattanDistance a b = 1 \<and> adjacentCells (b # cs)"
| "adjacentCells cs \<longleftrightarrow> True"

definition wellFormed :: "game \<Rightarrow> bool" where
  "wellFormed g \<longleftrightarrow>
     snake g \<noteq> [] \<and> distinct (snake g) \<and> adjacentCells (snake g)
     \<and> set (snake g) \<subseteq> {c. inBounds (gridSize g) c}
     \<and> barriers g \<subseteq> {c. inBounds (gridSize g) c}
     \<and> set (snake g) \<inter> barriers g = {}
     \<and> inBounds (gridSize g) (orb g) \<and> orb g \<notin> set (snake g) \<and> orb g \<notin> barriers g"

section \<open>aStarPolicy\<close>

text \<open>
  An entry of \<^verbatim>\<open>openSet\<close> is the tuple (estimated total cost, \<^verbatim>\<open>gScore\<close>, cell, path); the
  path is the list of directions walked from the head.
\<close>

type_synonym entry = "int \<times> int \<times> cell \<times> direction list"

definition entryCell :: "entry \<Rightarrow> cell" where
  "entryCell e = fst (snd (snd e))"

text \<open>
  The entries that the \<^verbatim>\<open>for\<close> loop over \<^verbatim>\<open>moves.items()\<close> appends for the cell it
  expands, in dictionary order. \<open>visited\<close> already contains the expanded cell.
\<close>

definition expand ::
  "cell list \<Rightarrow> cell \<Rightarrow> int \<times> int \<Rightarrow> cell set \<Rightarrow> cell set \<Rightarrow> int \<Rightarrow> cell \<Rightarrow> direction list
     \<Rightarrow> entry list" where
  "expand s ob gs bs visited gScore current path =
     map (\<lambda>d. (gScore + 1 + manhattanDistance (step current d) ob, gScore + 1,
               step current d, path @ [d]))
       (filter (\<lambda>d. isValidAStar s gs bs (step current d) \<and> step current d \<notin> visited)
          directions)"

lemma expand_inBounds: "e \<in> set (expand s ob gs bs visited gScore current path)
    \<Longrightarrow> inBounds gs (entryCell e)"
  by (auto simp: expand_def entryCell_def isValidAStar_def)

lemma finite_frontier: "finite ({c. inBounds gs c} \<union> entryCell ` set openSet)"
  using finite_inBounds by simp

lemma aStar_measure_skip:
  assumes "openSet \<noteq> []"
  shows "card (({c. inBounds gs c} \<union> entryCell ` set (tl (sort_key fst openSet))) - visited)
           \<le> card (({c. inBounds gs c} \<union> entryCell ` set openSet) - visited)"
proof -
  have "set (tl (sort_key fst openSet)) \<subseteq> set openSet"
    by (metis list.set_sel(2) set_sort subsetI tl_Nil)
  then have "({c. inBounds gs c} \<union> entryCell ` set (tl (sort_key fst openSet))) - visited
           \<subseteq> ({c. inBounds gs c} \<union> entryCell ` set openSet) - visited" by blast
  then show ?thesis by (rule card_mono [rotated]) (use finite_frontier in simp)
qed

lemma aStar_measure_expand:
  assumes "openSet \<noteq> []" and "current = entryCell (hd (sort_key fst openSet))"
    and "current \<notin> visited"
  shows "card (({c. inBounds gs c} \<union> entryCell `
                  set (tl (sort_key fst openSet) @ expand s ob gs bs v' gScore current path))
                - insert current visited)
           < card (({c. inBounds gs c} \<union> entryCell ` set openSet) - visited)"
proof -
  let ?U = "{c. inBounds gs c} \<union> entryCell ` set openSet"
  let ?U' = "{c. inBounds gs c} \<union> entryCell `
                  set (tl (sort_key fst openSet) @ expand s ob gs bs v' gScore current path)"
  have ne: "sort_key fst openSet \<noteq> []" using assms(1) by (metis length_0_conv length_sort)
  have tl: "set (tl (sort_key fst openSet)) \<subseteq> set openSet"
    by (metis list.set_sel(2) set_sort subsetI tl_Nil)
  have "hd (sort_key fst openSet) \<in> set openSet" using ne by (metis list.set_sel(1) set_sort)
  then have cur: "current \<in> ?U - visited" using assms(2,3) by blast
  have "entryCell ` set (expand s ob gs bs v' gScore current path) \<subseteq> {c. inBounds gs c}"
    using expand_inBounds [of _ s ob gs bs v' gScore current path] by blast
  then have "?U' \<subseteq> ?U" using tl by auto
  then have "?U' - insert current visited \<subseteq> (?U - visited) - {current}" by blast
  also have "\<dots> \<subset> ?U - visited" using cur by blast
  finally show ?thesis by (rule psubset_card_mono [rotated]) (use finite_frontier in simp)
qed

text \<open>
  The \<^verbatim>\<open>while openSet\<close> loop. \<^verbatim>\<open>openSet.sort(key=lambda x: x[0])\<close> is a stable sort on
  the first component, as \<open>sort_key fst\<close> is, and \<^verbatim>\<open>pop(0)\<close> takes its head. The result
  is \<open>None\<close> when the loop ends with an empty \<^verbatim>\<open>openSet\<close>. The last argument counts the
  passes through the loop body and is returned with the result; the source has no such
  counter, and nothing else depends on it.
\<close>

function aStarLoop ::
  "cell list \<Rightarrow> cell \<Rightarrow> int \<times> int \<Rightarrow> cell set \<Rightarrow> entry list \<Rightarrow> cell set \<Rightarrow> nat
     \<Rightarrow> direction option \<times> nat" where
  "aStarLoop s ob gs bs openSet visited n =
     (if openSet = [] then (None, n)
      else
        (case hd (sort_key fst openSet) of
           (f, gScore, current, path) \<Rightarrow>
             if current = ob then (Some (case path of [] \<Rightarrow> UP | d # _ \<Rightarrow> d), n + 1)
             else if current \<in> visited
             then aStarLoop s ob gs bs (tl (sort_key fst openSet)) visited (n + 1)
             else aStarLoop s ob gs bs
                    (tl (sort_key fst openSet)
                       @ expand s ob gs bs (insert current visited) gScore current path)
                    (insert current visited) (n + 1)))"
  by pat_completeness auto
termination
proof (relation "measures
    [\<lambda>(s, ob, gs, bs, openSet, visited, n).
        card (({c. inBounds gs c} \<union> entryCell ` set openSet) - visited),
     \<lambda>(s, ob, gs, bs, openSet, visited, n). length openSet]", goal_cases)
  case 1
  show ?case by simp
next
  case (2 s ob gs bs openSet visited n x y xa ya xb yb)
  then show ?case
    using le_imp_less_or_eq [OF aStar_measure_skip [of openSet gs visited]] by simp
next
  case (3 s ob gs bs openSet visited n x y xa ya xb yb)
  then have "xb = entryCell (hd (sort_key fst openSet))"
    by (metis entryCell_def fst_conv snd_conv)
  from aStar_measure_expand [OF _ this] 3 show ?case by simp
qed

declare aStarLoop.simps [simp del]

text \<open>
  \<open>rnd\<close> is the value of \<^verbatim>\<open>random.choice(list(moves.keys()))\<close> on the fallback path.
\<close>

definition aStarPolicy ::
  "cell list \<Rightarrow> cell \<Rightarrow> int \<times> int \<Rightarrow> cell set \<Rightarrow> direction \<Rightarrow> error + direction" where
  "aStarPolicy s ob gs bs rnd =
     (case s of
        [] \<Rightarrow> Inl IndexError
      | h # _ \<Rightarrow>
          (case fst (aStarLoop s ob gs bs [(manhattanDistance h ob, 0, h, [])] {} 0) of
             None \<Rightarrow> Inr rnd
           | Some d \<Rightarrow> Inr d))"

text \<open>
  The cells the search can reach: the head, and every cell one step from a reached cell
  that \<^verbatim>\<open>isValid\<close> accepts.
\<close>

inductive_set aStarReachable :: "cell list \<Rightarrow> int \<times> int \<Rightarrow> cell set \<Rightarrow> cell \<Rightarrow> cell set"
  for s :: "cell list" and gs :: "int \<times> int" and bs :: "cell set" and h :: cell where
  origin: "h \<in> aStarReachable s gs bs h"
| onward: "c \<in> aStarReachable s gs bs h \<Longrightarrow> isValidAStar s gs bs (step c d)
          \<Longrightarrow> step c d \<in> aStarReachable s gs bs h"

text \<open>
  The cell at which a path of directions ends, and the configurations in which nothing
  lies on a shortest path from the head \<open>h\<close> to the orb: every cell other than the head
  whose distances to head and orb add up to the distance between the two is neither a
  snake cell nor a barrier.
\<close>

definition entryPath :: "entry \<Rightarrow> direction list" where
  "entryPath e = snd (snd (snd e))"

definition walk :: "cell \<Rightarrow> direction list \<Rightarrow> cell" where
  "walk c p = foldl step c p"

definition unobstructed :: "cell list \<Rightarrow> cell \<Rightarrow> cell set \<Rightarrow> cell \<Rightarrow> bool" where
  "unobstructed s ob bs h \<longleftrightarrow>
     (\<forall>c. c \<noteq> h \<and> manhattanDistance h c + manhattanDistance c ob = manhattanDistance h ob
          \<longrightarrow> c \<notin> set s \<and> c \<notin> bs)"

definition covered :: "cell \<Rightarrow> cell \<Rightarrow> entry list \<Rightarrow> cell set \<Rightarrow> cell \<Rightarrow> bool" where
  "covered h ob openSet visited c \<longleftrightarrow>
     c \<in> visited \<or> (\<exists>e\<in>set openSet. entryCell e = c \<and> fst e = manhattanDistance h ob)"

definition aStarInv :: "cell \<Rightarrow> cell \<Rightarrow> entry list \<Rightarrow> cell set \<Rightarrow> bool" where
  "aStarInv h ob openSet visited \<longleftrightarrow>
     (\<forall>e\<in>set openSet. fst e = fst (snd e) + manhattanDistance (entryCell e) ob
         \<and> fst (snd e) = int (length (entryPath e)) \<and> entryCell e = walk h (entryPath e))
     \<and> ob \<notin> visited
     \<and> (\<forall>v\<in>visited. manhattanDistance h v + manhattanDistance v ob = manhattanDistance h ob)
     \<and> covered h ob openSet visited h
     \<and> (\<forall>v\<in>visited. \<forall>d. manhattanDistance (step v d) ob = manhattanDistance v ob - 1
           \<longrightarrow> covered h ob openSet visited (step v d))"

text \<open>
  Successive ticks, as \<^verbatim>\<open>window.after(200, gameLoop)\<close> schedules them: each one gets its
  own fallback direction and its own draws for \<^verbatim>\<open>generateOrb\<close>; the run stops at the first
  tick that does not end in \<open>Running\<close>.
\<close>

fun run :: "policy \<Rightarrow> (direction \<times> cell list) list \<Rightarrow> game \<Rightarrow> outcome result" where
  "run pol [] g = Return (Running g)"
| "run pol (r # rs) g =
     (case gameLoop pol (fst r) (snd r) g of
        Return (Running g') \<Rightarrow> run pol rs g'
      | other \<Rightarrow> other)"

section \<open>generateBarriers and resetGame\<close>

text \<open>
  \<^verbatim>\<open>maxBarrierCells = int(0.25 * totalCells)\<close>: the product with 0.25 is exact for every
  cell count below \<open>2 ^ 53\<close>, and \<^verbatim>\<open>int\<close> truncates towards zero.
\<close>

definition maxBarrierCells :: "int \<times> int \<Rightarrow> int" where
  "maxBarrierCells gs =
     (let totalCells = fst gs * snd gs
      in if 0 \<le> totalCells then totalCells div 4 else - ((- totalCells) div 4))"

text \<open>
  \<open>barrierRow\<close> is the inner loop over \<^verbatim>\<open>j\<close> and \<open>barrierBlock\<close> the outer loop over
  \<^verbatim>\<open>i\<close>, both over \<^verbatim>\<open>range(barrierSize)\<close>; each leaves with \<^verbatim>\<open>break\<close> once
  \<^verbatim>\<open>len(barriers) >= maxBarrierCells\<close>.
\<close>

fun barrierRow ::
  "int \<times> int \<Rightarrow> cell list \<Rightarrow> cell \<Rightarrow> int \<Rightarrow> int \<Rightarrow> int \<Rightarrow> int \<Rightarrow> int list \<Rightarrow> cell set
     \<Rightarrow> cell set" where
  "barrierRow gs s ob m startX startY i [] bars = bars"
| "barrierRow gs s ob m startX startY i (j # js) bars =
     (let c = (startX + i, startY + j);
          bars' = (if inBounds gs c \<and> c \<notin> set s \<and> c \<noteq> ob then insert c bars else bars)
      in if m \<le> int (card bars') then bars'
         else barrierRow gs s ob m startX startY i js bars')"

fun barrierBlock ::
  "int \<times> int \<Rightarrow> cell list \<Rightarrow> cell \<Rightarrow> int \<Rightarrow> int \<Rightarrow> int \<Rightarrow> int \<Rightarrow> int list \<Rightarrow> cell set
     \<Rightarrow> cell set" where
  "barrierBlock gs s ob m startX startY barrierSize [] bars = bars"
| "barrierBlock gs s ob m startX startY barrierSize (i # is) bars =
     (let bars' = barrierRow gs s ob m startX startY i [0 .. barrierSize - 1] bars
      in if m \<le> int (card bars') then bars'
         else barrierBlock gs s ob m startX startY barrierSize is bars')"

text \<open>
  The \<^verbatim>\<open>while len(barriers) < maxBarrierCells\<close> loop. A draw is the triple
  (\<^verbatim>\<open>barrierSize\<close>, \<^verbatim>\<open>startX\<close>, \<^verbatim>\<open>startY\<close>) that the three \<^verbatim>\<open>random.randint\<close> calls of
  one pass return; the second or third call raises ValueError on a grid without columns or
  rows.
\<close>

fun barrierLoop ::
  "int \<times> int \<Rightarrow> cell list \<Rightarrow> cell \<Rightarrow> int \<Rightarrow> (int \<times> int \<times> int) list \<Rightarrow> cell set
     \<Rightarrow> cell set result" where
  "barrierLoop gs s ob m [] bars = (if int (card bars) < m then Pending else Return bars)"
| "barrierLoop gs s ob m (draw # draws) bars =
     (if int (card bars) < m
      then (case draw of (barrierSize, startX, startY) \<Rightarrow>
              if fst gs < 1 \<or> snd gs < 1 then Raise ValueError
              else barrierLoop gs s ob m draws
                     (barrierBlock gs s ob m startX startY barrierSize
                        [0 .. barrierSize - 1] bars))
      else Return bars)"

definition generateBarriers ::
  "int \<times> int \<Rightarrow> cell list \<Rightarrow> cell \<Rightarrow> (int \<times> int \<times> int) list \<Rightarrow> cell set result" where
  "generateBarriers gs s ob draws = barrierLoop gs s ob (maxBarrierCells gs) draws {}"

text \<open>
  \<open>resetState\<close> is the sequence of assignments of \<^verbatim>\<open>resetGame\<close> (the clock left out);
  \<^verbatim>\<open>resetGame\<close> then calls \<^verbatim>\<open>gameLoop\<close> on the state they leave. \<^verbatim>\<open>highscore\<close> is not among
  the variables \<^verbatim>\<open>resetGame\<close> declares \<^verbatim>\<open>nonlocal\<close>.
\<close>

definition startSnake :: "cell list" where
  "startSnake = [(5, 5), (5, 6), (5, 7)]"

definition resetState :: "(int \<times> int \<times> int) list \<Rightarrow> cell list \<Rightarrow> game \<Rightarrow> game result" where
  "resetState barrierDraws orbDraws g =
     (case generateBarriers (gridSize g) startSnake (0, 0) barrierDraws of
        Raise e \<Rightarrow> Raise e
      | Pending \<Rightarrow> Pending
      | Return bars \<Rightarrow>
          (case generateOrb (gridSize g) startSnake bars orbDraws of
             Raise e \<Rightarrow> Raise e
           | Pending \<Rightarrow> Pending
           | Return orb' \<Rightarrow>
               Return (g\<lparr>snake := startSnake, barriers := bars, orb := orb', score := 0\<rparr>)))"

definition resetGame ::
  "policy \<Rightarrow> (int \<times> int \<times> int) list \<Rightarrow> cell list \<Rightarrow> direction \<Rightarrow> cell list \<Rightarrow> game
     \<Rightarrow> outcome result" where
  "resetGame pol barrierDraws orbDraws rnd draws g =
     (case resetState barrierDraws orbDraws g of
        Raise e \<Rightarrow> Raise e
      | Pending \<Rightarrow> Pending
      | Return g' \<Rightarrow> gameLoop pol rnd draws g')"

section \<open>Example states\<close>

text \<open>
  \<open>startState\<close> is the state that \<^verbatim>\<open>main\<close> builds, with no barriers and the orb
  right above the head. In \<open>tailTrap\<close> the snake has curled up so that its tail lies to
  the right of its head, and the orb lies further to the right.
\<close>

definition orbAhead :: game where
  "orbAhead = \<lparr>snake = [(5, 5), (5, 6), (5, 7)], orb = (5, 4), barriers = {},
               gridSize = (20, 20), score = 0, highscore = 0\<rparr>"

definition tailTrap :: game where
  "tailTrap = \<lparr>snake = [(5, 5), (5, 6), (6, 6), (6, 5)], orb = (8, 5), barriers = {},
               gridSize = (20, 20), score = 0, highscore = 0\<rparr>"

text \<open>
  In \<open>pocketTrap\<close> the only cell next to the head that lies outside the snake is a
  one-cell pocket between barriers, while the tail cell opens onto two cells.
\<close>

definition pocketTrap :: game where
  "pocketTrap = \<lparr>snake = [(1, 1), (1, 2), (2, 2), (2, 1)], orb = (10, 10),
                 barriers = {(0, 0), (2, 0), (0, 1), (3, 0), (4, 1), (3, 2)},
                 gridSize = (20, 20), score = 0, highscore = 0\<rparr>"

text \<open>
  \<open>corridor\<close> is a grid of one row with a one-cell snake at one end and the orb at the
  other; in \<open>sealedOrb\<close> the orb sits in the corner behind two barriers.
\<close>

definition corridor :: game where
  "corridor = \<lparr>snake = [(0, 0)], orb = (3, 0), barriers = {},
               gridSize = (4, 1), score = 0, highscore = 0\<rparr>"

definition sealedOrb :: game where
  "sealedOrb = \<lparr>snake = [(5, 5), (5, 6), (5, 7)], orb = (0, 0), barriers = {(1, 0), (0, 1)},
                 gridSize = (20, 20), score = 0, highscore = 0\<rparr>"

text \<open>
  \<open>lostGame\<close> is a state on an 8 by 8 grid after some play, with a high score.
\<close>

definition lostGame :: game where
  "lostGame = \<lparr>snake = [(2, 2), (2, 3), (3, 3), (3, 2)], orb = (6, 1), barriers = {(2, 1)},
                gridSize = (8, 8), score = -7, highscore = 193\<rparr>"

text \<open>
  \<open>cornerStart\<close> is a grid of one row whose left cell is a barrier, with a one-cell snake
  on the right cell and the orb in the middle; \<open>cornered\<close> is the state one tick later,
  after the snake has eaten that orb and the new orb has been placed on the right cell.
\<close>

definition cornerStart :: game where
  "cornerStart = \<lparr>snake = [(2, 0)], orb = (1, 0), barriers = {(0, 0)},
                  gridSize = (3, 1), score = 0, highscore = 0\<rparr>"

definition cornered :: game where
  "cornered = \<lparr>snake = [(1, 0), (1, 0)], orb = (2, 0), barriers = {(0, 0)},
               gridSize = (3, 1), score = 99, highscore = 0\<rparr>"

text \<open>
  \<open>afterReset\<close> is the state in which \<^verbatim>\<open>resetGame\<close> leaves \<open>lostGame\<close> for the draws
  used below.
\<close>

definition afterReset :: game where
  "afterReset = \<lparr>snake = [(6, 5), (5, 5), (5, 6)], orb = (6, 6),
                  barriers = {(0, 1), (0, 2), (1, 0), (1, 1), (1, 2), (2, 0), (2, 1), (2, 2),
                              (3, 0), (3, 1), (3, 2), (4, 0), (4, 1), (4, 2), (5, 0), (5, 1)},
                  gridSize = (8, 8), score = -1, highscore = 193\<rparr>"

section \<open>Auxiliary facts\<close>

lemma set_directions: "set directions = UNIV"
proof -
  have "d \<in> set directions" for d by (cases d) (simp_all add: directions_def)
  then show ?thesis by blast
qed

lemma minBy_in: "minBy k x xs \<in> set (x # xs)"
  unfolding minBy_def by (induction xs arbitrary: x) auto

lemma minBy_mono: "k (minBy k x xs) \<le> k x"
  unfolding minBy_def
proof (induction xs arbitrary: x)
  case Nil then show ?case by simp
next
  case (Cons a xs)
  show ?case using Cons.IH[of a] Cons.IH[of x] by (auto intro: order_trans less_imp_le)
qed

lemma minBy_Cons:
  "minBy k x (a # xs) = minBy k (if k a < k x then a else x) xs"
  by (simp add: minBy_def)

lemma minBy_le: "y \<in> set (x # xs) \<Longrightarrow> k (minBy k x xs) \<le> k y"
proof (induction xs arbitrary: x)
  case Nil then show ?case by (simp add: minBy_def)
next
  case (Cons a xs)
  let ?z = "if k a < k x then a else x"
  have z: "k ?z \<le> k x" "k ?z \<le> k a" by auto
  have m: "k (minBy k ?z xs) \<le> k ?z" by (rule minBy_mono)
  from Cons.prems consider "y = x" | "y = a" | "y \<in> set xs" by auto
  then show ?case
  proof cases
    case 1 then show ?thesis unfolding minBy_Cons using m z(1) by (blast intro: order_trans)
  next
    case 2 then show ?thesis unfolding minBy_Cons using m z(2) by (blast intro: order_trans)
  next
    case 3 then show ?thesis unfolding minBy_Cons using Cons.IH[of ?z] by simp
  qed
qed

lemma firstFree_Return:
  "\<exists>c\<in>set draws. c \<notin> set s \<and> c \<notin> bs \<Longrightarrow>
   \<exists>c. firstFree s bs draws = Return c \<and> c \<notin> set s \<and> c \<notin> bs \<and> c \<in> set draws"
  by (induction draws) auto

lemma heuristicPolicy_tailTrap:
  "heuristicPolicy (snake tailTrap) (orb tailTrap) (gridSize tailTrap) (barriers tailTrap) rnd
     = Inr RIGHT"
  by (simp add: tailTrap_def heuristicPolicy_def validMovesHeuristic_def directions_def
      isValidHeuristic_def inBounds_def step_def manhattanDistance_def minBy_def)

lemma heuristicPolicy_orbAhead:
  "heuristicPolicy (snake orbAhead) (orb orbAhead) (gridSize orbAhead) (barriers orbAhead) rnd
     = Inr UP"
  by (simp add: orbAhead_def heuristicPolicy_def validMovesHeuristic_def directions_def
      isValidHeuristic_def inBounds_def step_def manhattanDistance_def minBy_def)

lemma maxBy_in: "maxBy k x xs \<in> set (x # xs)"
  unfolding maxBy_def by (induction xs arbitrary: x) auto

lemma maxBy_mono: "k x \<le> k (maxBy k x xs)"
  unfolding maxBy_def
proof (induction xs arbitrary: x)
  case Nil then show ?case by simp
next
  case (Cons a xs)
  show ?case using Cons.IH[of a] Cons.IH[of x] by (auto intro: order_trans less_imp_le)
qed

lemma maxBy_Cons:
  "maxBy k x (a # xs) = maxBy k (if k x < k a then a else x) xs"
  by (simp add: maxBy_def)

lemma maxBy_ge: "y \<in> set (x # xs) \<Longrightarrow> k y \<le> k (maxBy k x xs)"
proof (induction xs arbitrary: x)
  case Nil then show ?case by (simp add: maxBy_def)
next
  case (Cons a xs)
  let ?z = "if k x < k a then a else x"
  have z: "k x \<le> k ?z" "k a \<le> k ?z" by auto
  have m: "k ?z \<le> k (maxBy k ?z xs)" by (rule maxBy_mono)
  from Cons.prems consider "y = x" | "y = a" | "y \<in> set xs" by auto
  then show ?case
  proof cases
    case 1 then show ?thesis unfolding maxBy_Cons using m z(1) by (blast intro: order_trans)
  next
    case 2 then show ?thesis unfolding maxBy_Cons using m z(2) by (blast intro: order_trans)
  next
    case 3 then show ?thesis unfolding maxBy_Cons using Cons.IH[of ?z] by simp
  qed
qed

lemma neighbor_iff_step:
  "(\<exists>off\<in>set neighborOffsets. n = (fst c + fst off, snd c + snd off)) \<longleftrightarrow> (\<exists>d. n = step c d)"
proof
  assume "\<exists>off\<in>set neighborOffsets. n = (fst c + fst off, snd c + snd off)"
  then consider "n = step c UP" | "n = step c DOWN" | "n = step c LEFT" | "n = step c RIGHT"
    by (auto simp: neighborOffsets_def step_def)
  then show "\<exists>d. n = step c d" by cases blast+
next
  assume "\<exists>d. n = step c d"
  then obtain d where "n = step c d" ..
  then show "\<exists>off\<in>set neighborOffsets. n = (fst c + fst off, snd c + snd off)"
    by (cases d) (simp_all add: neighborOffsets_def step_def)
qed

lemma fold_visitNeighbor:
  "\<exists>ns. fold (visitNeighbor gs c) offs (v, q) = (v \<union> set ns, q @ ns) \<and> distinct ns
     \<and> set ns = {n. (\<exists>off\<in>set offs. n = (fst c + fst off, snd c + snd off))
                    \<and> inBounds gs n \<and> n \<notin> v}"
proof (induction offs arbitrary: v q)
  case Nil
  show ?case by simp
next
  case (Cons off offs)
  let ?n = "(fst c + fst off, snd c + snd off)"
  show ?case
  proof (cases "inBounds gs ?n \<and> ?n \<notin> v")
    case True
    from Cons.IH [of "insert ?n v" "q @ [?n]"] obtain ns where
      ns: "fold (visitNeighbor gs c) offs (insert ?n v, q @ [?n])
             = (insert ?n v \<union> set ns, (q @ [?n]) @ ns)"
          "distinct ns"
          "set ns = {n. (\<exists>off\<in>set offs. n = (fst c + fst off, snd c + snd off))
                    \<and> inBounds gs n \<and> n \<notin> insert ?n v}"
      by blast
    have 1: "fold (visitNeighbor gs c) (off # offs) (v, q) = (v \<union> set (?n # ns), q @ (?n # ns))"
      using True ns(1) by (simp add: visitNeighbor_def Let_def)
    have 2: "distinct (?n # ns)" using ns(2,3) by simp
    have 3: "set (?n # ns) = {n. (\<exists>off\<in>set (off # offs). n = (fst c + fst off, snd c + snd off))
                    \<and> inBounds gs n \<and> n \<notin> v}"
      using True ns(3) by auto
    from 1 2 3 show ?thesis by blast
  next
    case False
    from Cons.IH [of v q] obtain ns where
      ns: "fold (visitNeighbor gs c) offs (v, q) = (v \<union> set ns, q @ ns)"
          "distinct ns"
          "set ns = {n. (\<exists>off\<in>set offs. n = (fst c + fst off, snd c + snd off))
                    \<and> inBounds gs n \<and> n \<notin> v}"
      by blast
    have 1: "fold (visitNeighbor gs c) (off # offs) (v, q) = (v \<union> set ns, q @ ns)"
      using False ns(1) by (auto simp: visitNeighbor_def Let_def)
    have 3: "set ns = {n. (\<exists>off\<in>set (off # offs). n = (fst c + fst off, snd c + snd off))
                    \<and> inBounds gs n \<and> n \<notin> v}"
      using False ns(3) by auto
    from 1 ns(2) 3 show ?thesis by blast
  qed
qed

lemma floodLoop_invariant:
  assumes "v = (set (butlast s) \<union> bs) \<union> D" and "start \<in> D"
    and "D \<subseteq> reachable s gs bs start"
    and "set q \<subseteq> D" and "distinct q" and "finite D"
    and "a = int (card (D - set q))"
    and "\<forall>p\<in>D - set q. \<forall>d. isValidHybrid s gs bs (step p d) \<longrightarrow> step p d \<in> D"
  shows "floodLoop gs q v a = int (card (reachable s gs bs start))"
  using assms
proof (induction gs q v a arbitrary: D rule: floodLoop.induct)
  case (1 gs visited area)
  have "c \<in> D" if "c \<in> reachable s gs bs start" for c
    using that
  proof (induction rule: reachable.induct)
    case origin
    show ?case by (rule "1.prems"(2))
  next
    case (onward c d)
    then show ?case using "1.prems"(8) by simp
  qed
  with "1.prems"(3) have "D = reachable s gs bs start" by blast
  then show ?case using "1.prems"(7) by simp
next
  case (2 gs c queue visited area)
  let ?B = "set (butlast s) \<union> bs"
  from fold_visitNeighbor [of gs c neighborOffsets visited queue] obtain ns where
    ns: "fold (visitNeighbor gs c) neighborOffsets (visited, queue) = (visited \<union> set ns, queue @ ns)"
        "distinct ns"
        "set ns = {n. (\<exists>d. n = step c d) \<and> inBounds gs n \<and> n \<notin> visited}"
    unfolding neighbor_iff_step by blast
  let ?D = "D \<union> set ns"
  have cD: "c \<in> D" and qD: "set queue \<subseteq> D" and cq: "c \<notin> set queue" and dq: "distinct queue"
    using "2.prems"(4,5) by auto
  have disj: "set ns \<inter> D = {}" using ns(3) "2.prems"(1) by auto
  have valid: "isValidHybrid s gs bs n" if "n \<in> set ns" for n
    using that ns(3) "2.prems"(1) by (auto simp: isValidHybrid_def)
  have p1: "visited \<union> set ns = ?B \<union> ?D" using "2.prems"(1) by auto
  have p2: "start \<in> ?D" using "2.prems"(2) by simp
  have p3: "?D \<subseteq> reachable s gs bs start"
  proof -
    have "n \<in> reachable s gs bs start" if "n \<in> set ns" for n
    proof -
      from that ns(3) obtain d where "n = step c d" by auto
      moreover have "c \<in> reachable s gs bs start" using cD "2.prems"(3) by blast
      ultimately show ?thesis using valid [OF that] reachable.onward by metis
    qed
    then show ?thesis using "2.prems"(3) by blast
  qed
  have p4: "set (queue @ ns) \<subseteq> ?D" using qD by auto
  have p5: "distinct (queue @ ns)" using dq ns(2) disj qD by auto
  have p6: "finite ?D" using "2.prems"(6) by simp
  have eq: "?D - set (queue @ ns) = insert c (D - set (c # queue))"
    using disj cD cq by auto
  have "c \<notin> D - set (c # queue)" by simp
  moreover have "finite (D - set (c # queue))" using "2.prems"(6) by simp
  ultimately have "card (?D - set (queue @ ns)) = card (D - set (c # queue)) + 1"
    unfolding eq by simp
  then have p7: "area + 1 = int (card (?D - set (queue @ ns)))" using "2.prems"(7) by simp
  have p8: "\<forall>p\<in>?D - set (queue @ ns). \<forall>d. isValidHybrid s gs bs (step p d) \<longrightarrow> step p d \<in> ?D"
  proof (intro ballI allI impI)
    fix p d
    assume p: "p \<in> ?D - set (queue @ ns)" and v: "isValidHybrid s gs bs (step p d)"
    from p have "p = c \<or> p \<in> D - set (c # queue)" unfolding eq by simp
    then show "step p d \<in> ?D"
    proof
      assume "p = c"
      show ?thesis
      proof (cases "step c d \<in> visited")
        case True
        then show ?thesis using v "2.prems"(1) \<open>p = c\<close> by (auto simp: isValidHybrid_def)
      next
        case False
        then have "step c d \<in> set ns" using v ns(3) by (auto simp: isValidHybrid_def \<open>p = c\<close>)
        then show ?thesis using \<open>p = c\<close> by simp
      qed
    next
      assume "p \<in> D - set (c # queue)"
      then show ?thesis using "2.prems"(8) v by blast
    qed
  qed
  let ?vq = "fold (visitNeighbor gs c) neighborOffsets (visited, queue)"
  have vq: "fst ?vq = visited \<union> set ns" "snd ?vq = queue @ ns" using ns(1) by simp_all
  have "floodLoop gs (queue @ ns) (visited \<union> set ns) (area + 1)
          = int (card (reachable s gs bs start))"
    by (rule "2.IH" [OF refl, of ?D, unfolded vq, OF p1 p2 p3 p4 p5 p6 p7 p8])
  then show ?case using vq by (simp add: Let_def)
qed

lemma floodFillArea_reachable:
  "floodFillArea s gs bs start = int (card (reachable s gs bs start))"
  unfolding floodFillArea_def
  by (rule floodLoop_invariant [where D = "{start}"]) (auto intro: reachable.origin)

lemma floodFillArea_5x5:
  assumes "length s \<le> 1" "1 \<le> x" "x \<le> 3" "1 \<le> y" "y \<le> 3"
  shows "floodFillArea s (5, 5) {} (x, y) = 25"
proof -
  have b: "butlast s = []" using assms(1) by (cases s) auto
  have e: "floodFillArea s (5, 5) {} (x, y) = floodFillArea [] (5, 5) {} (x, y)"
    by (simp add: floodFillArea_def b)
  have x: "x = 1 \<or> x = 2 \<or> x = 3" using assms(2,3) by arith
  have y: "y = 1 \<or> y = 2 \<or> y = 3" using assms(4,5) by arith
  have "floodFillArea [] (5, 5) {} (1, 1) = 25" by code_simp
  moreover have "floodFillArea [] (5, 5) {} (1, 2) = 25" by code_simp
  moreover have "floodFillArea [] (5, 5) {} (1, 3) = 25" by code_simp
  moreover have "floodFillArea [] (5, 5) {} (2, 1) = 25" by code_simp
  moreover have "floodFillArea [] (5, 5) {} (2, 2) = 25" by code_simp
  moreover have "floodFillArea [] (5, 5) {} (2, 3) = 25" by code_simp
  moreover have "floodFillArea [] (5, 5) {} (3, 1) = 25" by code_simp
  moreover have "floodFillArea [] (5, 5) {} (3, 2) = 25" by code_simp
  moreover have "floodFillArea [] (5, 5) {} (3, 3) = 25" by code_simp
  ultimately show ?thesis using x y e by auto
qed

lemma hybridPolicy_pocketTrap:
  "hybridPolicy (snake pocketTrap) (orb pocketTrap) (gridSize pocketTrap) (barriers pocketTrap) rnd
     = Inr RIGHT"
  unfolding pocketTrap_def by (cases rnd; code_simp)

lemma wf_tailTrap: "wellFormed tailTrap"
  by (simp add: wellFormed_def tailTrap_def inBounds_def manhattanDistance_def)

lemma wf_pocketTrap: "wellFormed pocketTrap"
  by (simp add: wellFormed_def pocketTrap_def inBounds_def manhattanDistance_def)

lemma hd_sort_key_mem: "xs \<noteq> [] \<Longrightarrow> hd (sort_key f xs) \<in> set xs"
  by (metis length_0_conv length_sort list.set_sel(1) set_sort)

lemma set_tl_sort_key: "xs \<noteq> [] \<Longrightarrow> set xs = insert (hd (sort_key f xs)) (set (tl (sort_key f xs)))"
  by (metis length_0_conv length_sort list.exhaust_sel list.simps(15) set_sort)

lemma tl_sort_key_subset: "set (tl (sort_key f xs)) \<subseteq> set xs"
  by (metis list.set_sel(2) set_sort subsetI tl_Nil)

lemma hd_sort_key_min:
  assumes "x \<in> set xs"
  shows "f (hd (sort_key f xs)) \<le> f x"
proof -
  let ?ys = "sort_key f xs"
  have ne: "?ys \<noteq> []" using assms by (metis empty_iff empty_set set_sort)
  then obtain y ys where ys: "?ys = y # ys" by (cases ?ys) auto
  have "sorted (map f ?ys)" by (rule sorted_sort_key)
  then have "\<forall>z\<in>set ys. f y \<le> f z" unfolding ys by simp
  moreover have "x = y \<or> x \<in> set ys" using assms ys by (metis set_ConsD set_sort)
  ultimately show ?thesis unfolding ys by auto
qed

lemma aStarLoop_unfold:
  assumes "openSet \<noteq> []" and "hd (sort_key fst openSet) = (f, gScore, current, path)"
  shows "aStarLoop s ob gs bs openSet visited n =
     (if current = ob then (Some (case path of [] \<Rightarrow> UP | d # _ \<Rightarrow> d), n + 1)
      else if current \<in> visited
      then aStarLoop s ob gs bs (tl (sort_key fst openSet)) visited (n + 1)
      else aStarLoop s ob gs bs
             (tl (sort_key fst openSet)
                @ expand s ob gs bs (insert current visited) gScore current path)
             (insert current visited) (n + 1))"
  by (subst aStarLoop.simps) (simp add: assms)

lemma aStarLoop_Nil: "aStarLoop s ob gs bs [] visited n = (None, n)"
  by (subst aStarLoop.simps) simp

lemma length_expand: "length (expand s ob gs bs visited gScore current path) \<le> 4"
proof -
  have "length (filter P directions) \<le> 4" for P :: "direction \<Rightarrow> bool"
    using length_filter_le [of P directions] by (simp add: directions_def)
  then show ?thesis by (simp add: expand_def)
qed

lemma expand_valid: "e \<in> set (expand s ob gs bs visited gScore current path)
    \<Longrightarrow> isValidAStar s gs bs (entryCell e)"
  by (auto simp: expand_def entryCell_def)

lemma aStarLoop_iterations:
  assumes "finite W" and "entryCell ` set openSet \<subseteq> W" and "{c. isValidAStar s gs bs c} \<subseteq> W"
  shows "snd (aStarLoop s ob gs bs openSet visited n)
           \<le> n + length openSet + 4 * card (W - visited)"
  using assms
proof (induction s ob gs bs openSet visited n rule: aStarLoop.induct)
  case (1 s ob gs bs openSet visited n)
  show ?case
  proof (cases "openSet = []")
    case True
    then show ?thesis by (simp add: aStarLoop_Nil)
  next
    case False
    obtain f gScore current path where hd: "hd (sort_key fst openSet) = (f, gScore, current, path)"
      by (cases "hd (sort_key fst openSet)") auto
    note unf = aStarLoop_unfold [OF False hd, of s ob gs bs visited n]
    let ?rest = "tl (sort_key fst openSet)"
    have "length openSet > 0" using False by simp
    then have len: "length ?rest + 1 = length openSet" by simp
    have restW: "entryCell ` set ?rest \<subseteq> W" using tl_sort_key_subset [of fst openSet] "1.prems"(2) by blast
    have "(f, gScore, current, path) \<in> set openSet"
      using hd_sort_key_mem [OF False, of fst] hd by simp
    then have "entryCell (f, gScore, current, path) \<in> entryCell ` set openSet" by (rule imageI)
    then have curW: "current \<in> W" using "1.prems"(2) by (auto simp: entryCell_def)
    consider "current = ob" | "current \<noteq> ob" "current \<in> visited" | "current \<noteq> ob" "current \<notin> visited"
      by blast
    then show ?thesis
    proof cases
      case 1
      then show ?thesis using unf len by simp
    next
      case 2
      from "1.IH"(1) [OF False hd [symmetric] refl refl 2 "1.prems"(1) restW "1.prems"(3)]
      show ?thesis using unf 2 len by simp
    next
      case 3
      let ?exp = "expand s ob gs bs (insert current visited) gScore current path"
      have expW: "entryCell ` set (?rest @ ?exp) \<subseteq> W"
        using restW expand_valid [of _ s ob gs bs "insert current visited" gScore current path]
          "1.prems"(3) by auto
      have mem: "current \<in> W - visited" using curW 3 by simp
      have fin: "finite (W - visited)" using "1.prems"(1) by simp
      have pos: "card (W - visited) > 0" using mem fin card_gt_0_iff by blast
      have "W - insert current visited = (W - visited) - {current}" by blast
      then have card: "card (W - insert current visited) = card (W - visited) - 1"
        using mem fin by simp
      from "1.IH"(2) [OF False hd [symmetric] refl refl 3 "1.prems"(1) expW "1.prems"(3)]
      have "snd (aStarLoop s ob gs bs (?rest @ ?exp) (insert current visited) (n + 1))
              \<le> n + 1 + length (?rest @ ?exp) + 4 * card (W - insert current visited)" .
      then show ?thesis
        using unf 3 len card pos length_expand [of s ob gs bs "insert current visited" gScore current path]
        by simp
    qed
  qed
qed

lemma aStarLoop_unreachable:
  assumes "entryCell ` set openSet \<subseteq> aStarReachable s gs bs h"
    and "ob \<notin> aStarReachable s gs bs h"
  shows "fst (aStarLoop s ob gs bs openSet visited n) = None"
  using assms
proof (induction s ob gs bs openSet visited n rule: aStarLoop.induct)
  case (1 s ob gs bs openSet visited n)
  show ?case
  proof (cases "openSet = []")
    case True
    then show ?thesis by (simp add: aStarLoop_Nil)
  next
    case False
    obtain f gScore current path where hd: "hd (sort_key fst openSet) = (f, gScore, current, path)"
      by (cases "hd (sort_key fst openSet)") auto
    note unf = aStarLoop_unfold [OF False hd, of s ob gs bs visited n]
    let ?rest = "tl (sort_key fst openSet)"
    let ?R = "aStarReachable s gs bs h"
    have restR: "entryCell ` set ?rest \<subseteq> ?R"
      using tl_sort_key_subset [of fst openSet] "1.prems"(1) by blast
    have "(f, gScore, current, path) \<in> set openSet"
      using hd_sort_key_mem [OF False, of fst] hd by simp
    then have "entryCell (f, gScore, current, path) \<in> entryCell ` set openSet" by (rule imageI)
    then have curR: "current \<in> ?R" using "1.prems"(1) by (auto simp: entryCell_def)
    then have ne: "current \<noteq> ob" using "1.prems"(2) by blast
    show ?thesis
    proof (cases "current \<in> visited")
      case True
      from "1.IH"(1) [OF False hd [symmetric] refl refl ne True restR "1.prems"(2)]
      show ?thesis using unf ne True by simp
    next
      case False
      let ?exp = "expand s ob gs bs (insert current visited) gScore current path"
      have "entryCell e \<in> ?R" if "e \<in> set ?exp" for e
      proof -
        from that obtain d where "entryCell e = step current d"
          "isValidAStar s gs bs (step current d)"
          by (auto simp: expand_def entryCell_def)
        then show ?thesis using curR aStarReachable.onward by metis
      qed
      then have expR: "entryCell ` set (?rest @ ?exp) \<subseteq> ?R" using restR by auto
      from "1.IH"(2) [OF \<open>openSet \<noteq> []\<close> hd [symmetric] refl refl ne False expR "1.prems"(2)]
      show ?thesis using unf ne False by simp
    qed
  qed
qed

lemma md_step_le: "manhattanDistance (step c d) x \<le> manhattanDistance c x + 1"
  by (cases d) (simp_all add: manhattanDistance_def step_def)

lemma md_step_ge: "manhattanDistance c x \<le> manhattanDistance (step c d) x + 1"
  by (cases d) (simp_all add: manhattanDistance_def step_def)

lemma md_from_step: "manhattanDistance x (step c d) \<le> manhattanDistance x c + 1"
  by (cases d) (simp_all add: manhattanDistance_def step_def)

lemma md_triangle: "manhattanDistance a c \<le> manhattanDistance a b + manhattanDistance b c"
  by (simp add: manhattanDistance_def)

lemma md_self [simp]: "manhattanDistance a a = 0"
  by (simp add: manhattanDistance_def)

lemma md_nonneg: "0 \<le> manhattanDistance a b"
  by (simp add: manhattanDistance_def)

lemma md_zero_iff: "manhattanDistance a b = 0 \<longleftrightarrow> a = b"
  by (auto simp: manhattanDistance_def prod_eq_iff)

lemma md_toward: "c \<noteq> ob \<Longrightarrow> \<exists>d. manhattanDistance (step c d) ob = manhattanDistance c ob - 1"
proof -
  assume "c \<noteq> ob"
  then have "fst c \<noteq> fst ob \<or> snd c \<noteq> snd ob" by (simp add: prod_eq_iff)
  then consider "fst c < fst ob" | "fst ob < fst c" | "snd c < snd ob" | "snd ob < snd c"
    by linarith
  then show ?thesis
  proof cases
    case 1 then show ?thesis by (intro exI [of _ RIGHT]) (simp add: manhattanDistance_def step_def)
  next
    case 2 then show ?thesis by (intro exI [of _ LEFT]) (simp add: manhattanDistance_def step_def)
  next
    case 3 then show ?thesis by (intro exI [of _ DOWN]) (simp add: manhattanDistance_def step_def)
  next
    case 4 then show ?thesis by (intro exI [of _ UP]) (simp add: manhattanDistance_def step_def)
  qed
qed

lemma rectangle_inBounds:
  "inBounds gs h \<Longrightarrow> inBounds gs ob
   \<Longrightarrow> manhattanDistance h c + manhattanDistance c ob = manhattanDistance h ob
   \<Longrightarrow> inBounds gs c"
  by (simp add: inBounds_def manhattanDistance_def) linarith

lemma walk_Cons: "walk c (d # p) = walk (step c d) p"
  by (simp add: walk_def)

lemma walk_snoc: "walk c (p @ [d]) = step (walk c p) d"
  by (simp add: walk_def)

lemma walk_dist: "manhattanDistance c (walk c p) \<le> int (length p)"
proof (induction p arbitrary: c)
  case Nil
  show ?case by (simp add: walk_def)
next
  case (Cons d p)
  have "manhattanDistance c (walk (step c d) p)
          \<le> manhattanDistance c (step c d) + manhattanDistance (step c d) (walk (step c d) p)"
    by (rule md_triangle)
  moreover have "manhattanDistance c (step c d) \<le> 1" using md_from_step [of c c d] by simp
  ultimately show ?case using Cons.IH [of "step c d"] by (simp add: walk_Cons)
qed

lemma aStarInv_f_ge:
  assumes "aStarInv h ob openSet visited" and "e \<in> set openSet"
  shows "manhattanDistance h ob \<le> fst e"
proof -
  from assms have e: "fst e = int (length (entryPath e)) + manhattanDistance (entryCell e) ob"
    "entryCell e = walk h (entryPath e)"
    by (auto simp: aStarInv_def)
  have "manhattanDistance h ob
          \<le> manhattanDistance h (entryCell e) + manhattanDistance (entryCell e) ob"
    by (rule md_triangle)
  moreover have "manhattanDistance h (entryCell e) \<le> int (length (entryPath e))"
    unfolding e(2) by (rule walk_dist)
  ultimately show ?thesis using e(1) by linarith
qed

lemma aStarInv_covered_entry:
  assumes inv: "aStarInv h ob openSet visited"
    and "covered h ob openSet visited c"
    and "manhattanDistance h c + manhattanDistance c ob = manhattanDistance h ob"
  shows "\<exists>e\<in>set openSet. fst e = manhattanDistance h ob"
  using assms(2,3)
proof (induction "nat (manhattanDistance c ob)" arbitrary: c rule: less_induct)
  case less
  show ?case
  proof (cases "c \<in> visited")
    case False
    then show ?thesis using less.prems(1) by (auto simp: covered_def)
  next
    case True
    then have "c \<noteq> ob" using inv by (auto simp: aStarInv_def)
    from md_toward [OF this] obtain d where
      d: "manhattanDistance (step c d) ob = manhattanDistance c ob - 1" by blast
    have cov: "covered h ob openSet visited (step c d)"
      using inv True d by (simp add: aStarInv_def)
    have "manhattanDistance h ob
            \<le> manhattanDistance h (step c d) + manhattanDistance (step c d) ob"
      by (rule md_triangle)
    moreover have "manhattanDistance h (step c d) \<le> manhattanDistance h c + 1"
      by (rule md_from_step)
    ultimately have rect: "manhattanDistance h (step c d) + manhattanDistance (step c d) ob
        = manhattanDistance h ob"
      using d less.prems(2) by linarith
    have "0 < manhattanDistance c ob"
      using \<open>c \<noteq> ob\<close> md_zero_iff [of c ob] md_nonneg [of c ob] by linarith
    then have "nat (manhattanDistance (step c d) ob) < nat (manhattanDistance c ob)"
      using d by simp
    from less.hyps [OF this cov rect] show ?thesis .
  qed
qed

lemma aStarInv_hd:
  assumes inv: "aStarInv h ob openSet visited"
  shows "openSet \<noteq> [] \<and> fst (hd (sort_key fst openSet)) = manhattanDistance h ob"
proof -
  have "covered h ob openSet visited h" using inv by (simp add: aStarInv_def)
  from aStarInv_covered_entry [OF inv this] obtain e where
    e: "e \<in> set openSet" "fst e = manhattanDistance h ob" by auto
  then have ne: "openSet \<noteq> []" by auto
  have "fst (hd (sort_key fst openSet)) \<le> fst e" by (rule hd_sort_key_min [OF e(1)])
  moreover have "manhattanDistance h ob \<le> fst (hd (sort_key fst openSet))"
    by (rule aStarInv_f_ge [OF inv hd_sort_key_mem [OF ne]])
  ultimately show ?thesis using ne e(2) by simp
qed

lemma expand_entries:
  "e \<in> set (expand s ob gs bs visited gScore current path) \<longleftrightarrow>
     (\<exists>d. isValidAStar s gs bs (step current d) \<and> step current d \<notin> visited
        \<and> e = (gScore + 1 + manhattanDistance (step current d) ob, gScore + 1,
               step current d, path @ [d]))"
  by (auto simp: expand_def set_directions)

lemma covered_mono:
  assumes "covered h ob openSet visited c"
    and "set openSet \<subseteq> insert e (set openSet')" and "visited \<subseteq> visited'"
    and "entryCell e \<in> visited'"
  shows "covered h ob openSet' visited' c"
proof (cases "c \<in> visited")
  case True
  then show ?thesis using assms(3) by (auto simp: covered_def)
next
  case False
  then obtain e' where e': "e' \<in> set openSet" "entryCell e' = c" "fst e' = manhattanDistance h ob"
    using assms(1) by (auto simp: covered_def)
  show ?thesis
  proof (cases "e' = e")
    case True
    then show ?thesis using e'(2) assms(4) by (auto simp: covered_def)
  next
    case False
    then have "e' \<in> set openSet'" using e'(1) assms(2) by blast
    then show ?thesis using e'(2,3) unfolding covered_def by blast
  qed
qed

lemma aStarLoop_finds:
  assumes "aStarInv h ob openSet visited" and "h \<noteq> ob"
    and "inBounds gs h" and "inBounds gs ob" and "unobstructed s ob bs h"
  shows "\<exists>d. fst (aStarLoop s ob gs bs openSet visited n) = Some d
           \<and> manhattanDistance (step h d) ob = manhattanDistance h ob - 1"
  using assms
proof (induction s ob gs bs openSet visited n rule: aStarLoop.induct)
  case (1 s ob gs bs openSet visited n)
  let ?D = "manhattanDistance h ob"
  note inv = "1.prems"(1)
  from aStarInv_hd [OF inv] have ne: "openSet \<noteq> []"
    and fmin: "fst (hd (sort_key fst openSet)) = ?D" by auto
  obtain f gScore current path where hd: "hd (sort_key fst openSet) = (f, gScore, current, path)"
    by (cases "hd (sort_key fst openSet)") auto
  let ?e = "(f, gScore, current, path)"
  let ?rest = "tl (sort_key fst openSet)"
  have f: "f = ?D" using fmin hd by simp
  have emem: "?e \<in> set openSet" using hd_sort_key_mem [OF ne, of fst] hd by simp
  have "fst ?e = fst (snd ?e) + manhattanDistance (entryCell ?e) ob
         \<and> fst (snd ?e) = int (length (entryPath ?e)) \<and> entryCell ?e = walk h (entryPath ?e)"
    using inv emem unfolding aStarInv_def by blast
  then have e1: "f = gScore + manhattanDistance current ob" "gScore = int (length path)"
    "current = walk h path"
    by (simp_all add: entryCell_def entryPath_def)
  note unf = aStarLoop_unfold [OF ne hd, of s ob gs bs visited n]
  have split: "set openSet \<subseteq> insert ?e (set ?rest)"
    using set_tl_sort_key [OF ne, of fst] hd by simp
  have restsub: "set ?rest \<subseteq> set openSet" by (rule tl_sort_key_subset)
  have ecell: "entryCell ?e = current" by (simp add: entryCell_def)
  have Dpos: "0 < ?D"
    using "1.prems"(2) md_zero_iff [of h ob] md_nonneg [of h ob] by linarith
  have hcur: "manhattanDistance h current \<le> gScore"
    unfolding e1(2,3) by (rule walk_dist)
  have "?D \<le> manhattanDistance h current + manhattanDistance current ob" by (rule md_triangle)
  then have rect: "manhattanDistance h current + manhattanDistance current ob = ?D"
    using hcur e1(1) f by linarith
  from inv have i1: "\<forall>e\<in>set openSet. fst e = fst (snd e) + manhattanDistance (entryCell e) ob
         \<and> fst (snd e) = int (length (entryPath e)) \<and> entryCell e = walk h (entryPath e)"
    and i2: "ob \<notin> visited"
    and i3: "\<forall>v\<in>visited. manhattanDistance h v + manhattanDistance v ob = ?D"
    and i4: "covered h ob openSet visited h"
    and i5: "\<forall>v\<in>visited. \<forall>d. manhattanDistance (step v d) ob = manhattanDistance v ob - 1
           \<longrightarrow> covered h ob openSet visited (step v d)"
    unfolding aStarInv_def by blast+
  show ?case
  proof (cases "current = ob")
    case True
    have g: "gScore = ?D" using e1(1) f True by simp
    then have "path \<noteq> []" using e1(2) Dpos by auto
    then obtain d p where path: "path = d # p" by (cases path) auto
    have "walk (step h d) p = ob" using e1(3) True path by (simp add: walk_Cons)
    then have "manhattanDistance (step h d) ob \<le> int (length p)"
      using walk_dist [of "step h d" p] by simp
    moreover have "int (length p) = ?D - 1" using g e1(2) path by simp
    moreover have "?D \<le> manhattanDistance (step h d) ob + 1" by (rule md_step_ge)
    ultimately have "manhattanDistance (step h d) ob = ?D - 1" by linarith
    moreover have "fst (aStarLoop s ob gs bs openSet visited n) = Some d"
      using unf True path by simp
    ultimately show ?thesis by blast
  next
    case False
    show ?thesis
    proof (cases "current \<in> visited")
      case True
      have cov: "covered h ob ?rest visited c" if "covered h ob openSet visited c" for c
        by (rule covered_mono [OF that split subset_refl]) (simp add: ecell True)
      have inv': "aStarInv h ob ?rest visited"
        unfolding aStarInv_def using i1 i2 i3 i4 i5 restsub cov by blast
      from "1.IH"(1) [OF ne hd [symmetric] refl refl False True inv' "1.prems"(2-5)]
      show ?thesis using unf False True by simp
    next
      case nv: False
      let ?V = "insert current visited"
      let ?exp = "expand s ob gs bs ?V gScore current path"
      have split': "set openSet \<subseteq> insert ?e (set (?rest @ ?exp))" using split by auto
      have cov: "covered h ob (?rest @ ?exp) ?V c" if "covered h ob openSet visited c" for c
        by (rule covered_mono [OF that split']) (auto simp: ecell)
      have n1: "\<forall>e\<in>set (?rest @ ?exp). fst e = fst (snd e) + manhattanDistance (entryCell e) ob
         \<and> fst (snd e) = int (length (entryPath e)) \<and> entryCell e = walk h (entryPath e)"
      proof
        fix e assume "e \<in> set (?rest @ ?exp)"
        then consider "e \<in> set openSet" | "e \<in> set ?exp" using restsub by auto
        then show "fst e = fst (snd e) + manhattanDistance (entryCell e) ob
         \<and> fst (snd e) = int (length (entryPath e)) \<and> entryCell e = walk h (entryPath e)"
        proof cases
          case 1
          then show ?thesis using i1 by blast
        next
          case 2
          then obtain d where "e = (gScore + 1 + manhattanDistance (step current d) ob,
              gScore + 1, step current d, path @ [d])"
            unfolding expand_entries by blast
          then show ?thesis
            using e1(2,3) by (simp add: entryCell_def entryPath_def walk_snoc)
        qed
      qed
      have n2: "ob \<notin> ?V" using i2 False by simp
      have n3: "\<forall>v\<in>?V. manhattanDistance h v + manhattanDistance v ob = ?D"
        using i3 rect by simp
      have n4: "covered h ob (?rest @ ?exp) ?V h" by (rule cov [OF i4])
      have n5: "\<forall>v\<in>?V. \<forall>d. manhattanDistance (step v d) ob = manhattanDistance v ob - 1
           \<longrightarrow> covered h ob (?rest @ ?exp) ?V (step v d)"
      proof (intro ballI allI impI)
        fix v d
        assume v: "v \<in> ?V"
          and d: "manhattanDistance (step v d) ob = manhattanDistance v ob - 1"
        show "covered h ob (?rest @ ?exp) ?V (step v d)"
        proof (cases "v \<in> visited")
          case True
          then show ?thesis using i5 d cov by blast
        next
          case False
          then have vc: "v = current" using v by simp
          let ?n = "step current d"
          have dn: "manhattanDistance ?n ob = manhattanDistance current ob - 1"
            using d vc by simp
          have "?D \<le> manhattanDistance h ?n + manhattanDistance ?n ob" by (rule md_triangle)
          moreover have "manhattanDistance h ?n \<le> manhattanDistance h current + 1"
            by (rule md_from_step)
          ultimately have nrect: "manhattanDistance h ?n + manhattanDistance ?n ob = ?D"
            using dn rect by linarith
          have "manhattanDistance ?n ob < ?D"
            using dn rect md_nonneg [of h current] by linarith
          then have "?n \<noteq> h" by auto
          then have free: "?n \<notin> set s" "?n \<notin> bs"
            using "1.prems"(5) nrect unfolding unobstructed_def by blast+
          have "inBounds gs ?n"
            by (rule rectangle_inBounds [OF "1.prems"(3,4) nrect])
          then have valid: "isValidAStar s gs bs ?n" using free by (simp add: isValidAStar_def)
          show ?thesis
          proof (cases "?n \<in> ?V")
            case True
            then show ?thesis unfolding vc covered_def by blast
          next
            case False
            let ?ne = "(gScore + 1 + manhattanDistance ?n ob, gScore + 1, ?n, path @ [d])"
            have "?ne \<in> set ?exp" unfolding expand_entries using valid False by blast
            then have "?ne \<in> set (?rest @ ?exp)" by simp
            moreover have "entryCell ?ne = ?n" by (simp add: entryCell_def)
            moreover have "fst ?ne = ?D" using dn e1(1) f by simp
            ultimately show ?thesis unfolding vc covered_def by blast
          qed
        qed
      qed
      have inv': "aStarInv h ob (?rest @ ?exp) ?V"
        unfolding aStarInv_def using n1 n2 n3 n4 n5 by blast
      from "1.IH"(2) [OF ne hd [symmetric] refl refl False nv inv' "1.prems"(2-5)]
      show ?thesis using unf False nv by simp
    qed
  qed
qed

lemma aStarInv_initial: "aStarInv h ob [(manhattanDistance h ob, 0, h, [])] {}"
  by (simp add: aStarInv_def covered_def entryCell_def entryPath_def walk_def)

lemma aStarPolicy_toward:
  assumes "s = h # t" and "h \<noteq> ob" and "inBounds gs h" and "inBounds gs ob"
    and "unobstructed s ob bs h"
  shows "\<exists>d. aStarPolicy s ob gs bs rnd = Inr d
           \<and> manhattanDistance (step h d) ob = manhattanDistance h ob - 1"
proof -
  from aStarLoop_finds [OF aStarInv_initial assms(2-5), of 0] obtain d where
    "fst (aStarLoop s ob gs bs [(manhattanDistance h ob, 0, h, [])] {} 0) = Some d"
    "manhattanDistance (step h d) ob = manhattanDistance h ob - 1" by blast
  then show ?thesis using assms(1) by (simp add: aStarPolicy_def)
qed

lemma md_step_self: "manhattanDistance c (step c d) = 1"
  by (cases d) (simp_all add: manhattanDistance_def step_def)

lemma run_snoc:
  "run pol (rs @ [r]) g =
     (case run pol rs g of
        Return (Running g') \<Rightarrow> gameLoop pol (fst r) (snd r) g'
      | other \<Rightarrow> other)"
proof (induction rs arbitrary: g)
  case Nil
  show ?case by (simp split: result.splits outcome.splits)
next
  case (Cons a rs)
  show ?case by (simp add: Cons.IH split: result.splits outcome.splits)
qed

lemma set_butlast_subset: "set (butlast xs) \<subseteq> set xs"
  by (auto dest: in_set_butlastD)

lemma finite_isValidAStar: "finite {c. isValidAStar s gs bs c}"
  by (rule finite_subset [OF _ finite_inBounds [of gs]]) (auto simp: isValidAStar_def)

lemma sealedOrb_unreachable:
  "orb sealedOrb \<notin> aStarReachable (snake sealedOrb) (gridSize sealedOrb) (barriers sealedOrb) (5, 5)"
proof -
  let ?s = "snake sealedOrb" and ?gs = "gridSize sealedOrb" and ?bs = "barriers sealedOrb"
  have "c \<noteq> (0, 0) \<and> (c = (5, 5) \<or> isValidAStar ?s ?gs ?bs c)"
    if "c \<in> aStarReachable ?s ?gs ?bs (5, 5)" for c
    using that
  proof (induction rule: aStarReachable.induct)
    case origin
    show ?case by simp
  next
    case (onward c d)
    have "step c d \<noteq> (0, 0)"
    proof
      assume z: "step c d = (0, 0)"
      then have "c = (0, 1) \<or> c = (0, -1) \<or> c = (1, 0) \<or> c = (-1, 0)"
        by (cases d) (auto simp: step_def prod_eq_iff)
      then show False
        using onward.IH by (auto simp: isValidAStar_def inBounds_def sealedOrb_def)
    qed
    then show ?case using onward.hyps(2) by simp
  qed
  then show ?thesis by (auto simp: sealedOrb_def)
qed

lemma lostGame_barriers:
  "generateBarriers (gridSize lostGame) startSnake (0, 0) [(3, 0, 0), (3, 3, 0)]
     = Return {(0, 1), (0, 2), (1, 0), (1, 1), (1, 2), (2, 0), (2, 1), (2, 2),
               (3, 0), (3, 1), (3, 2), (4, 0), (4, 1), (4, 2), (5, 0), (5, 1)}"
  unfolding lostGame_def by code_simp

lemma lostGame_orb:
  "generateOrb (gridSize lostGame) startSnake
     {(0, 1), (0, 2), (1, 0), (1, 1), (1, 2), (2, 0), (2, 1), (2, 2),
      (3, 0), (3, 1), (3, 2), (4, 0), (4, 1), (4, 2), (5, 0), (5, 1)}
     [(5, 5), (4, 1), (6, 6)] = Return (6, 6)"
  by (simp add: generateOrb_def lostGame_def startSnake_def)

lemma firstFree_Pending:
  "\<not> (\<exists>c\<in>set draws. c \<notin> set s \<and> c \<notin> bs) \<Longrightarrow> firstFree s bs draws = Pending"
  by (induction draws) auto

lemma aStar_tick_closer:
  assumes "snake g = h # t" and "inBounds (gridSize g) h" and "inBounds (gridSize g) (orb g)"
    and "unobstructed (snake g) (orb g) (barriers g) h"
    and "1 < manhattanDistance h (orb g)"
  shows "\<exists>d. gameLoop aStarPolicy rnd draws g
             = Return (Running (g\<lparr>snake := step h d # butlast (snake g), score := score g - 1\<rparr>))
           \<and> manhattanDistance (step h d) (orb g) = manhattanDistance h (orb g) - 1
           \<and> inBounds (gridSize g) (step h d)
           \<and> unobstructed (step h d # butlast (snake g)) (orb g) (barriers g) (step h d)
           \<and> step h d \<notin> set (snake g) \<and> step h d \<notin> barriers g"
proof -
  let ?ob = "orb g" and ?D = "manhattanDistance h (orb g)"
  have "h \<noteq> ?ob" using assms(5) by auto
  from aStarPolicy_toward [OF assms(1) this assms(2,3,4), of rnd] obtain d where
    pol: "aStarPolicy (snake g) ?ob (gridSize g) (barriers g) rnd = Inr d"
    and dist: "manhattanDistance (step h d) ?ob = ?D - 1" by blast
  let ?n = "step h d"
  have nrect: "manhattanDistance h ?n + manhattanDistance ?n ?ob = ?D"
    using dist md_step_self [of h d] by simp
  have "?n \<noteq> h" using md_step_self [of h d] by auto
  then have free: "?n \<notin> set (snake g)" "?n \<notin> barriers g"
    using assms(4) nrect unfolding unobstructed_def by blast+
  have "?n \<noteq> ?ob" using dist assms(5) by auto
  then have tick: "gameLoop aStarPolicy rnd draws g
      = Return (Running (g\<lparr>snake := ?n # butlast (snake g), score := score g - 1\<rparr>))"
    using pol assms(1) free by (simp add: gameLoop_def Let_def)
  have inb: "inBounds (gridSize g) ?n" by (rule rectangle_inBounds [OF assms(2,3) nrect])
  have unob: "unobstructed (?n # butlast (snake g)) ?ob (barriers g) ?n"
    unfolding unobstructed_def
  proof (intro allI impI)
    fix c
    assume c: "c \<noteq> ?n \<and> manhattanDistance ?n c + manhattanDistance c ?ob
                 = manhattanDistance ?n ?ob"
    have "manhattanDistance h c \<le> manhattanDistance h ?n + manhattanDistance ?n c"
      by (rule md_triangle)
    moreover have "?D \<le> manhattanDistance h c + manhattanDistance c ?ob" by (rule md_triangle)
    ultimately have crect: "manhattanDistance h c + manhattanDistance c ?ob = ?D"
      using c dist md_step_self [of h d] by linarith
    have "c \<noteq> h"
    proof
      assume "c = h"
      then have "manhattanDistance ?n h + ?D = ?D - 1" using c dist by simp
      then show False using md_nonneg [of ?n h] by linarith
    qed
    then have "c \<notin> set (snake g)" "c \<notin> barriers g"
      using assms(4) crect unfolding unobstructed_def by blast+
    then show "c \<notin> set (?n # butlast (snake g)) \<and> c \<notin> barriers g"
      using c set_butlast_subset [of "snake g"] by auto
  qed
  from tick dist inb unob free show ?thesis by blast
qed

lemma aStar_tick_lands:
  assumes "snake g = h # t" and "inBounds (gridSize g) h" and "inBounds (gridSize g) (orb g)"
    and "unobstructed (snake g) (orb g) (barriers g) h"
    and "manhattanDistance h (orb g) = 1"
  shows "(\<exists>d. aStarPolicy (snake g) (orb g) (gridSize g) (barriers g) rnd = Inr d
            \<and> step h d = orb g)
       \<and> orb g \<notin> set (snake g) \<and> orb g \<notin> barriers g
       \<and> ((\<exists>c\<in>set draws. c \<notin> set (orb g # butlast (snake g)) \<and> c \<notin> barriers g) \<longrightarrow>
            (\<exists>c. gameLoop aStarPolicy rnd draws g
                = Return (Running (g\<lparr>snake := (orb g # butlast (snake g))
                                              @ [last (orb g # butlast (snake g))],
                                          orb := c, score := score g + 99\<rparr>))))
       \<and> (\<not> (\<exists>c\<in>set draws. c \<notin> set (orb g # butlast (snake g)) \<and> c \<notin> barriers g) \<longrightarrow>
            gameLoop aStarPolicy rnd draws g = Pending)"
proof -
  let ?ob = "orb g"
  have "h \<noteq> ?ob" using assms(5) by auto
  from aStarPolicy_toward [OF assms(1) this assms(2,3,4), of rnd] obtain d where
    pol: "aStarPolicy (snake g) ?ob (gridSize g) (barriers g) rnd = Inr d"
    and dist: "manhattanDistance (step h d) ?ob = 0" using assms(5) by auto
  have n: "step h d = ?ob" using dist md_zero_iff by blast
  have "?ob \<noteq> h" using \<open>h \<noteq> ?ob\<close> by simp
  moreover have "manhattanDistance h ?ob + manhattanDistance ?ob ?ob = manhattanDistance h ?ob"
    by simp
  ultimately have free: "?ob \<notin> set (snake g)" "?ob \<notin> barriers g"
    using assms(4) unfolding unobstructed_def by blast+
  let ?s1 = "?ob # butlast (snake g)"
  let ?s2 = "?s1 @ [last ?s1]"
  have sets: "set ?s2 = set ?s1" by auto
  have dims: "\<not> (fst (gridSize g) < 1 \<or> snd (gridSize g) < 1)"
    using assms(2) by (auto simp: inBounds_def)
  have yes: "\<exists>c. gameLoop aStarPolicy rnd draws g
                = Return (Running (g\<lparr>snake := ?s2, orb := c, score := score g + 99\<rparr>))"
    if "\<exists>c\<in>set draws. c \<notin> set ?s1 \<and> c \<notin> barriers g"
  proof -
    from that have "\<exists>c\<in>set draws. c \<notin> set ?s2 \<and> c \<notin> barriers g" unfolding sets .
    from firstFree_Return [OF this] obtain c where
      "firstFree ?s2 (barriers g) draws = Return c" by blast
    then have gen: "generateOrb (gridSize g) ?s2 (barriers g) draws = Return c"
      using dims by (simp add: generateOrb_def)
    have "gameLoop aStarPolicy rnd draws g =
          Return (Running (g\<lparr>snake := ?s2, orb := c, score := score g + 99\<rparr>))"
      using pol assms(1) n free gen by (simp add: gameLoop_def Let_def)
    then show ?thesis by (rule exI)
  qed
  have no: "gameLoop aStarPolicy rnd draws g = Pending"
    if "\<not> (\<exists>c\<in>set draws. c \<notin> set ?s1 \<and> c \<notin> barriers g)"
  proof -
    from that have "\<not> (\<exists>c\<in>set draws. c \<notin> set ?s2 \<and> c \<notin> barriers g)" unfolding sets .
    from firstFree_Pending [OF this]
    have gen: "generateOrb (gridSize g) ?s2 (barriers g) draws = Pending"
      using dims by (simp add: generateOrb_def)
    show ?thesis
      using pol assms(1) n free gen by (simp add: gameLoop_def Let_def)
  qed
  from pol n free yes no show ?thesis by blast
qed

lemma aStar_run_closer:
  assumes "snake g = h # t" and "inBounds (gridSize g) h" and "inBounds (gridSize g) (orb g)"
    and "unobstructed (snake g) (orb g) (barriers g) h"
    and "int (length os) < manhattanDistance h (orb g)"
  shows "\<exists>g' h' t'. run aStarPolicy os g = Return (Running g')
           \<and> orb g' = orb g \<and> barriers g' = barriers g \<and> gridSize g' = gridSize g
           \<and> snake g' = h' # t' \<and> length (snake g') = length (snake g)
           \<and> score g' = score g - int (length os)
           \<and> manhattanDistance h' (orb g) = manhattanDistance h (orb g) - int (length os)
           \<and> inBounds (gridSize g) h'
           \<and> unobstructed (snake g') (orb g) (barriers g) h'
           \<and> (distinct (snake g) \<longrightarrow> distinct (snake g'))
           \<and> (set (snake g) \<inter> barriers g = {} \<longrightarrow> set (snake g') \<inter> barriers g = {})
           \<and> (set (snake g) \<subseteq> {c. inBounds (gridSize g) c}
                \<longrightarrow> set (snake g') \<subseteq> {c. inBounds (gridSize g) c})"
  using assms
proof (induction os arbitrary: g h t)
  case Nil
  then show ?case by (intro exI [of _ g] exI [of _ h] exI [of _ t]) simp
next
  case (Cons r os)
  let ?ob = "orb g" and ?D = "manhattanDistance h (orb g)"
  have big: "1 < ?D" using Cons.prems(5) by simp
  from aStar_tick_closer [OF Cons.prems(1-4) big, of "fst r" "snd r"] obtain d where
    tick: "gameLoop aStarPolicy (fst r) (snd r) g
             = Return (Running (g\<lparr>snake := step h d # butlast (snake g), score := score g - 1\<rparr>))"
    and dist: "manhattanDistance (step h d) ?ob = ?D - 1"
    and inb: "inBounds (gridSize g) (step h d)"
    and unob: "unobstructed (step h d # butlast (snake g)) ?ob (barriers g) (step h d)"
    and free: "step h d \<notin> set (snake g)" "step h d \<notin> barriers g"
    by blast
  let ?g1 = "g\<lparr>snake := step h d # butlast (snake g), score := score g - 1\<rparr>"
  let ?n = "step h d"
  have p1: "snake ?g1 = ?n # butlast (snake g)" by simp
  have p2: "inBounds (gridSize ?g1) ?n" using inb by simp
  have p3: "inBounds (gridSize ?g1) (orb ?g1)" using Cons.prems(3) by simp
  have p4: "unobstructed (snake ?g1) (orb ?g1) (barriers ?g1) ?n" using unob by simp
  have p5: "int (length os) < manhattanDistance ?n (orb ?g1)"
    using Cons.prems(5) dist by simp
  from Cons.IH [OF p1 p2 p3 p4 p5] obtain g' h' t' where
    r: "run aStarPolicy os ?g1 = Return (Running g')"
      "orb g' = orb ?g1" "barriers g' = barriers ?g1" "gridSize g' = gridSize ?g1"
      "snake g' = h' # t'" "length (snake g') = length (snake ?g1)"
      "score g' = score ?g1 - int (length os)"
      "manhattanDistance h' (orb ?g1) = manhattanDistance ?n (orb ?g1) - int (length os)"
      "inBounds (gridSize ?g1) h'"
      "unobstructed (snake g') (orb ?g1) (barriers ?g1) h'"
      "distinct (snake ?g1) \<longrightarrow> distinct (snake g')"
      "set (snake ?g1) \<inter> barriers ?g1 = {} \<longrightarrow> set (snake g') \<inter> barriers ?g1 = {}"
      "set (snake ?g1) \<subseteq> {c. inBounds (gridSize ?g1) c}
         \<longrightarrow> set (snake g') \<subseteq> {c. inBounds (gridSize ?g1) c}"
    by blast
  have sub: "set (butlast (snake g)) \<subseteq> set (snake g)" by (rule set_butlast_subset)
  have len: "length (snake ?g1) = length (snake g)" using Cons.prems(1) by simp
  have a: "run aStarPolicy (r # os) g = Return (Running g')" using tick r(1) by simp
  have b: "score g' = score g - int (length (r # os))" using r(7) by simp
  have c: "manhattanDistance h' ?ob = ?D - int (length (r # os))"
    using r(8) dist by simp
  have d: "orb g' = orb g" "barriers g' = barriers g" "gridSize g' = gridSize g"
    "length (snake g') = length (snake g)" "inBounds (gridSize g) h'"
    "unobstructed (snake g') (orb g) (barriers g) h'"
    using r(2,3,4,6,9,10) len by simp_all
  have e1: "distinct (snake g) \<longrightarrow> distinct (snake g')"
  proof
    assume "distinct (snake g)"
    then have "distinct (butlast (snake g))" by (rule distinct_butlast)
    then have "distinct (snake ?g1)" using free(1) sub by auto
    then show "distinct (snake g')" using r(11) by blast
  qed
  have e2: "set (snake g) \<inter> barriers g = {} \<longrightarrow> set (snake g') \<inter> barriers g = {}"
  proof
    assume "set (snake g) \<inter> barriers g = {}"
    then have "set (snake ?g1) \<inter> barriers ?g1 = {}" using free(2) sub by auto
    then show "set (snake g') \<inter> barriers g = {}" using r(12) by simp
  qed
  have e3: "set (snake g) \<subseteq> {c. inBounds (gridSize g) c}
                \<longrightarrow> set (snake g') \<subseteq> {c. inBounds (gridSize g) c}"
  proof
    assume "set (snake g) \<subseteq> {c. inBounds (gridSize g) c}"
    then have "set (snake ?g1) \<subseteq> {c. inBounds (gridSize ?g1) c}" using inb sub by auto
    then show "set (snake g') \<subseteq> {c. inBounds (gridSize g) c}" using r(13) by simp
  qed
  show ?case
    using a b c d r(5) e1 e2 e3
    by (intro exI [of _ g'] exI [of _ h'] exI [of _ t'] conjI)
qed

lemma unobstructed_corridor:
  "unobstructed (snake corridor) (orb corridor) (barriers corridor) (0, 0)"
  unfolding unobstructed_def corridor_def by simp

lemma heuristicPolicy_cornered:
  "heuristicPolicy (snake cornered) (orb cornered) (gridSize cornered) (barriers cornered) rnd
     = Inr RIGHT"
  by (simp add: cornered_def heuristicPolicy_def validMovesHeuristic_def directions_def
      isValidHeuristic_def inBounds_def step_def manhattanDistance_def minBy_def)

lemma heuristicPolicy_cornerStart:
  "heuristicPolicy [(2, 0)] (1, 0) (3, 1) {(0, 0)} rnd = Inr LEFT"
  by (simp add: heuristicPolicy_def validMovesHeuristic_def directions_def
      isValidHeuristic_def inBounds_def step_def manhattanDistance_def minBy_def)

lemma wf_cornerStart: "wellFormed cornerStart"
  by (simp add: wellFormed_def cornerStart_def inBounds_def)

lemma cornerStart_tick:
  "gameLoop heuristicPolicy UP [(2, 0)] cornerStart = Return (Running cornered)"
  by (simp add: gameLoop_def cornerStart_def cornered_def heuristicPolicy_cornerStart
      Let_def generateOrb_def step_def)

lemma cornered_tick:
  "gameLoop heuristicPolicy UP [(0, 0), (1, 0), (2, 0)] cornered = Pending"
proof -
  have "heuristicPolicy [(1, 0), (1, 0)] (2, 0) (3, 1) {(0, 0)} UP = Inr RIGHT"
    using heuristicPolicy_cornered [of UP] by (simp add: cornered_def)
  then show ?thesis
    by (simp add: gameLoop_def cornered_def Let_def generateOrb_def step_def)
qed

lemma gameLoop_GameOver:
  assumes "gameLoop pol rnd draws g = Return (GameOver g')"
  shows "g' = g\<lparr>score := score g - 1, highscore := max (highscore g) (score g - 1)\<rparr>"
  using assms
  by (auto simp: gameLoop_def Let_def split: sum.splits list.splits if_splits result.splits)

lemma gameLoop_Running:
  assumes "gameLoop pol rnd draws g = Return (Running g')" and "snake g = h # t"
  shows "\<exists>d. g' = g\<lparr>snake := step h d # butlast (snake g), score := score g - 1\<rparr>
           \<or> (\<exists>c. g' = g\<lparr>snake := (step h d # butlast (snake g))
                                      @ [last (step h d # butlast (snake g))],
                          orb := c, score := score g - 1 + 100\<rparr>)"
proof -
  obtain d where pol: "pol (snake g) (orb g) (gridSize g) (barriers g) rnd = Inr d"
    using assms(1)
    by (cases "pol (snake g) (orb g) (gridSize g) (barriers g) rnd")
       (simp_all add: gameLoop_def)
  let ?s1 = "step h d # butlast (snake g)"
  let ?s2 = "?s1 @ [last ?s1]"
  have nc: "step h d \<notin> set (snake g)" "step h d \<notin> barriers g"
    using assms pol by (auto simp: gameLoop_def Let_def split: if_splits)
  show ?thesis
  proof (cases "step h d = orb g")
    case False
    have "gameLoop pol rnd draws g = Return (Running (g\<lparr>snake := ?s1, score := score g - 1\<rparr>))"
      using pol assms(2) nc False by (simp add: gameLoop_def Let_def)
    then have "g' = g\<lparr>snake := ?s1, score := score g - 1\<rparr>" using assms(1) by simp
    then show ?thesis by blast
  next
    case True
    show ?thesis
    proof (cases "generateOrb (gridSize g) ?s2 (barriers g) draws")
      case (Return c)
      have "gameLoop pol rnd draws g
          = Return (Running (g\<lparr>snake := ?s2, orb := c, score := score g - 1 + 100\<rparr>))"
        using pol assms(2) nc True Return by (simp add: gameLoop_def Let_def)
      then have "g' = g\<lparr>snake := ?s2, orb := c, score := score g - 1 + 100\<rparr>"
        using assms(1) by simp
      then show ?thesis by blast
    next
      case Pending
      have "gameLoop pol rnd draws g = Pending"
        using pol assms(2) nc True Pending by (simp add: gameLoop_def Let_def)
      then show ?thesis using assms(1) by simp
    next
      case (Raise e)
      have "gameLoop pol rnd draws g = Raise e"
        using pol assms(2) nc True Raise by (simp add: gameLoop_def Let_def)
      then show ?thesis using assms(1) by simp
    qed
  qed
qed

lemma lostGame_reset:
  "resetGame heuristicPolicy [(3, 0, 0), (3, 3, 0)] [(5, 5), (4, 1), (6, 6)] UP [] lostGame
     = Return (Running (lostGame\<lparr>snake := [(6, 5), (5, 5), (5, 6)],
          barriers := {(0, 1), (0, 2), (1, 0), (1, 1), (1, 2), (2, 0), (2, 1), (2, 2),
                       (3, 0), (3, 1), (3, 2), (4, 0), (4, 1), (4, 2), (5, 0), (5, 1)},
          orb := (6, 6), score := -1\<rparr>))"
proof -
  let ?bars = "{(0, 1), (0, 2), (1, 0), (1, 1), (1, 2), (2, 0), (2, 1), (2, 2),
                (3, 0), (3, 1), (3, 2), (4, 0), (4, 1), (4, 2), (5, 0), (5, 1)} :: cell set"
  have pol: "heuristicPolicy [(5, 5), (5, 6), (5, 7)] (6, 6) (8, 8) ?bars UP = Inr RIGHT"
    by (simp add: heuristicPolicy_def validMovesHeuristic_def directions_def
        isValidHeuristic_def inBounds_def step_def manhattanDistance_def minBy_def)
  have gs: "gridSize lostGame = (8, 8)" by (simp add: lostGame_def)
  have rs: "resetState [(3, 0, 0), (3, 3, 0)] [(5, 5), (4, 1), (6, 6)] lostGame
      = Return (lostGame\<lparr>snake := startSnake, barriers := ?bars, orb := (6, 6), score := 0\<rparr>)"
    by (simp add: resetState_def lostGame_barriers lostGame_orb)
  show ?thesis
    unfolding resetGame_def rs
    by (simp add: gameLoop_def startSnake_def gs pol Let_def step_def)
qed

section \<open>The claims\<close>

text \<open>
  Claim C8. The validity predicates of \<^verbatim>\<open>heuristicPolicy\<close> and \<^verbatim>\<open>hybridPolicy\<close> agree;
  the one of \<^verbatim>\<open>aStarPolicy\<close> counts every snake cell as occupied, the other two only the
  cells of \<^verbatim>\<open>snake[:-1]\<close>. Hence a cell valid for \<^verbatim>\<open>aStarPolicy\<close> is valid for the other
  two, the predicates differ exactly on an in-bounds, barrier-free tail cell that does not
  occur earlier in the snake, and there is an input on which they do differ.
\<close>

theorem isValid_difference:
  "(isValidHeuristic s gs bs c \<longleftrightarrow> isValidHybrid s gs bs c)
   \<and> (isValidAStar s gs bs c \<longleftrightarrow> inBounds gs c \<and> c \<notin> set s \<and> c \<notin> bs)
   \<and> (isValidHeuristic s gs bs c \<longleftrightarrow> inBounds gs c \<and> c \<notin> set (butlast s) \<and> c \<notin> bs)
   \<and> (isValidAStar s gs bs c \<longrightarrow> isValidHeuristic s gs bs c)
   \<and> (isValidHeuristic s gs bs c \<and> \<not> isValidAStar s gs bs c \<longleftrightarrow>
        s \<noteq> [] \<and> c = last s \<and> c \<notin> set (butlast s) \<and> inBounds gs c \<and> c \<notin> bs)
   \<and> (\<exists>s' gs' bs'. s' \<noteq> [] \<and> \<not> isValidAStar s' gs' bs' (last s')
        \<and> isValidHeuristic s' gs' bs' (last s') \<and> isValidHybrid s' gs' bs' (last s'))"
proof -
  have sub: "set (butlast s) \<subseteq> set s" by (auto dest: in_set_butlastD)
  have split: "s \<noteq> [] \<Longrightarrow> set s = insert (last s) (set (butlast s))"
    by (metis append_butlast_last_id list.simps(15) rotate1.simps(2) set_rotate1)
  have ex: "\<exists>s' gs' bs'. s' \<noteq> [] \<and> \<not> isValidAStar s' gs' bs' (last s')
        \<and> isValidHeuristic s' gs' bs' (last s') \<and> isValidHybrid s' gs' bs' (last s')"
    by (rule exI[of _ "[(5,5),(5,6),(5,7)]"], rule exI[of _ "(20,20)"], rule exI[of _ "{}"])
       (simp add: isValidAStar_def isValidHeuristic_def isValidHybrid_def inBounds_def)
  show ?thesis
    using sub split ex
    unfolding isValidAStar_def isValidHeuristic_def isValidHybrid_def
    by (cases "s = []") auto
qed

theorem isValid_difference_witness:
  "\<not> isValidAStar [(5, 5), (5, 6), (5, 7)] (20, 20) {} (5, 7)
   \<and> isValidHeuristic [(5, 5), (5, 6), (5, 7)] (20, 20) {} (5, 7)
   \<and> isValidHybrid [(5, 5), (5, 6), (5, 7)] (20, 20) {} (5, 7)"
  using isValid_difference [of "[(5, 5), (5, 6), (5, 7)]" "(20, 20)" "{}" "(5, 7)"]
  by (auto simp: inBounds_def)

text \<open>
  Claim C3. In a tick whose new head lies in the snake (tail included) or in the barriers,
  \<^verbatim>\<open>gameLoop\<close> takes the early return: the score is one less, the high score is the
  maximum of the old high score and the decremented score, and snake, orb, barriers and
  grid size are the ones the tick started with.
\<close>

theorem collision_tick:
  assumes "pol (snake g) (orb g) (gridSize g) (barriers g) rnd = Inr d"
      and "snake g = h # t"
      and "step h d \<in> set (snake g) \<or> step h d \<in> barriers g"
  shows "gameLoop pol rnd draws g =
           Return (GameOver (g\<lparr>score := score g - 1,
                               highscore := max (highscore g) (score g - 1)\<rparr>))"
  using assms by (simp add: gameLoop_def Let_def)

theorem collision_tick_witness:
  "gameLoop heuristicPolicy UP [] tailTrap =
     Return (GameOver (tailTrap\<lparr>score := -1, highscore := 0\<rparr>))"
proof -
  have "step (5, 5) RIGHT \<in> set (snake tailTrap) \<or> step (5, 5) RIGHT \<in> barriers tailTrap"
    by (simp add: tailTrap_def step_def)
  from collision_tick [where pol = heuristicPolicy and g = tailTrap and rnd = UP and d = RIGHT
      and h = "(5, 5)" and t = "[(5, 6), (6, 6), (6, 5)]" and draws = "[]",
      OF heuristicPolicy_tailTrap _ this]
  show ?thesis by (simp add: tailTrap_def)
qed

text \<open>
  Claim C5. When some direction leads to a cell that \<^verbatim>\<open>isValid\<close> accepts,
  \<^verbatim>\<open>heuristicPolicy\<close> returns a direction whose cell is valid (so neither a barrier nor a
  cell of the snake without its tail) and whose Manhattan distance to the orb is least
  among the valid directions.
\<close>

theorem heuristicPolicy_minimal:
  assumes "s = h # t" and "\<exists>d. isValidHeuristic s gs bs (step h d)"
  shows "\<exists>d. heuristicPolicy s ob gs bs rnd = Inr d
           \<and> isValidHeuristic s gs bs (step h d)
           \<and> step h d \<notin> bs \<and> step h d \<notin> set (butlast s)
           \<and> (\<forall>d'. isValidHeuristic s gs bs (step h d') \<longrightarrow>
                 manhattanDistance (step h d) ob \<le> manhattanDistance (step h d') ob)"
proof -
  let ?vm = "validMovesHeuristic s ob gs bs h"
  from assms(2) obtain d0 where d0: "isValidHeuristic s gs bs (step h d0)" by blast
  have mem: "(d, k) \<in> set ?vm \<longleftrightarrow>
      isValidHeuristic s gs bs (step h d) \<and> k = manhattanDistance (step h d) ob" for d k
    by (auto simp: validMovesHeuristic_def set_directions)
  then have "?vm \<noteq> []" using d0 by fastforce
  then obtain m ms where vm: "?vm = m # ms" by (cases ?vm) auto
  let ?b = "minBy snd m ms"
  have res: "heuristicPolicy s ob gs bs rnd = Inr (fst ?b)"
    using assms(1) vm by (simp add: heuristicPolicy_def)
  have "?b \<in> set ?vm" using minBy_in[of snd m ms] vm by simp
  then have b: "isValidHeuristic s gs bs (step h (fst ?b))"
      "snd ?b = manhattanDistance (step h (fst ?b)) ob"
    using mem[of "fst ?b" "snd ?b"] by simp_all
  have least: "manhattanDistance (step h (fst ?b)) ob \<le> manhattanDistance (step h d') ob"
    if "isValidHeuristic s gs bs (step h d')" for d'
  proof -
    have "(d', manhattanDistance (step h d') ob) \<in> set (m # ms)"
      using that mem vm by metis
    from minBy_le[OF this, of snd] show ?thesis using b(2) by simp
  qed
  show ?thesis using res b(1) least by (auto simp: isValidHeuristic_def)
qed

theorem heuristicPolicy_minimal_witness:
  "heuristicPolicy [(5, 5), (5, 6), (6, 6), (6, 5)] (8, 5) (20, 20) {} UP = Inr RIGHT
   \<and> isValidHeuristic [(5, 5), (5, 6), (6, 6), (6, 5)] (20, 20) {} (step (5, 5) RIGHT)"
proof -
  have v: "\<exists>d. isValidHeuristic [(5, 5), (5, 6), (6, 6), (6, 5)] (20, 20) {} (step (5, 5) d)"
    by (rule exI [of _ UP]) (simp add: isValidHeuristic_def inBounds_def step_def)
  from heuristicPolicy_minimal [OF refl v, of "(8, 5)" UP]
  obtain d where "heuristicPolicy [(5, 5), (5, 6), (6, 6), (6, 5)] (8, 5) (20, 20) {} UP = Inr d"
    by blast
  then show ?thesis
    using heuristicPolicy_tailTrap [of UP]
    by (simp add: tailTrap_def isValidHeuristic_def inBounds_def step_def)
qed

text \<open>
  Claim C7. \<^verbatim>\<open>floodFillArea\<close> returns the number of cells of \<open>reachable\<close>, a finite set
  that contains the start cell; on a 5 by 5 grid without barriers and with a snake of at
  most one cell (so that \<^verbatim>\<open>snake[:-1]\<close> is empty) it returns 25 from every interior cell.
\<close>

theorem floodFillArea_counts_reachable:
  "finite (reachable s gs bs start)
   \<and> floodFillArea s gs bs start = int (card (reachable s gs bs start))
   \<and> (length s \<le> 1 \<and> 1 \<le> x \<and> x \<le> 3 \<and> 1 \<le> y \<and> y \<le> 3
        \<longrightarrow> floodFillArea s (5, 5) {} (x, y) = 25)"
proof -
  have "c \<in> insert start {c. inBounds gs c}" if "c \<in> reachable s gs bs start" for c
    using that by (induction rule: reachable.induct) (auto simp: isValidHybrid_def)
  then have "reachable s gs bs start \<subseteq> insert start {c. inBounds gs c}" by blast
  then have "finite (reachable s gs bs start)"
    by (rule finite_subset) (simp add: finite_inBounds)
  then show ?thesis using floodFillArea_reachable floodFillArea_5x5 by blast
qed

theorem floodFillArea_counts_reachable_witness:
  "floodFillArea [(2, 2)] (5, 5) {} (2, 2) = 25 \<and> card (reachable [(2, 2)] (5, 5) {} (2, 2)) = 25"
  using floodFillArea_counts_reachable [of "[(2, 2)]" "(5, 5)" "{}" "(2, 2)" 2 2] by simp

text \<open>
  Claim C10. \<open>tailTrap\<close> and \<open>pocketTrap\<close> are well-formed, in both the cell above the
  head is in bounds and outside the whole snake and the barriers, and still
  \<^verbatim>\<open>heuristicPolicy\<close> on the first and \<^verbatim>\<open>hybridPolicy\<close> on the second return RIGHT, the
  direction of the tail cell, and \<^verbatim>\<open>gameLoop\<close> with that policy ends the episode.
\<close>

theorem tail_move_ends_episode:
  "wellFormed tailTrap
   \<and> snake tailTrap = (5, 5) # [(5, 6), (6, 6), (6, 5)]
   \<and> inBounds (gridSize tailTrap) (step (5, 5) UP)
   \<and> step (5, 5) UP \<notin> set (snake tailTrap) \<and> step (5, 5) UP \<notin> barriers tailTrap
   \<and> heuristicPolicy (snake tailTrap) (orb tailTrap) (gridSize tailTrap) (barriers tailTrap) rnd
       = Inr RIGHT
   \<and> step (5, 5) RIGHT = last (snake tailTrap)
   \<and> gameLoop heuristicPolicy rnd draws tailTrap
       = Return (GameOver (tailTrap\<lparr>score := -1, highscore := 0\<rparr>))
   \<and> wellFormed pocketTrap
   \<and> snake pocketTrap = (1, 1) # [(1, 2), (2, 2), (2, 1)]
   \<and> inBounds (gridSize pocketTrap) (step (1, 1) UP)
   \<and> step (1, 1) UP \<notin> set (snake pocketTrap) \<and> step (1, 1) UP \<notin> barriers pocketTrap
   \<and> hybridPolicy (snake pocketTrap) (orb pocketTrap) (gridSize pocketTrap) (barriers pocketTrap) rnd
       = Inr RIGHT
   \<and> step (1, 1) RIGHT = last (snake pocketTrap)
   \<and> gameLoop hybridPolicy rnd draws pocketTrap
       = Return (GameOver (pocketTrap\<lparr>score := -1, highscore := 0\<rparr>))"
proof -
  have a: "snake tailTrap = (5, 5) # [(5, 6), (6, 6), (6, 5)]"
    "inBounds (gridSize tailTrap) (step (5, 5) UP)"
    "step (5, 5) UP \<notin> set (snake tailTrap)" "step (5, 5) UP \<notin> barriers tailTrap"
    "step (5, 5) RIGHT = last (snake tailTrap)"
    by (simp_all add: tailTrap_def step_def inBounds_def)
  have b: "gameLoop heuristicPolicy rnd draws tailTrap
       = Return (GameOver (tailTrap\<lparr>score := -1, highscore := 0\<rparr>))"
    by (simp add: gameLoop_def heuristicPolicy_tailTrap) (simp add: tailTrap_def step_def)
  have c: "snake pocketTrap = (1, 1) # [(1, 2), (2, 2), (2, 1)]"
    "inBounds (gridSize pocketTrap) (step (1, 1) UP)"
    "step (1, 1) UP \<notin> set (snake pocketTrap)" "step (1, 1) UP \<notin> barriers pocketTrap"
    "step (1, 1) RIGHT = last (snake pocketTrap)"
    by (simp_all add: pocketTrap_def step_def inBounds_def)
  have d: "gameLoop hybridPolicy rnd draws pocketTrap
       = Return (GameOver (pocketTrap\<lparr>score := -1, highscore := 0\<rparr>))"
    by (simp add: gameLoop_def hybridPolicy_pocketTrap) (simp add: pocketTrap_def step_def)
  show ?thesis
    using wf_tailTrap a heuristicPolicy_tailTrap [of rnd] b
      wf_pocketTrap c hybridPolicy_pocketTrap [of rnd] d
    by blast
qed

text \<open>
  Claim C6. The search loop is a total function: its termination proof measures the cells
  not yet expanded, then the length of \<^verbatim>\<open>openSet\<close>. For a non-empty snake \<^verbatim>\<open>aStarPolicy\<close>
  returns a direction and does not raise; the loop body runs at most
  \<open>1 + 4 * (number of valid cells + 1)\<close> times; and when the orb is not reachable
  from the head through valid cells the result is the random fallback.
\<close>

theorem aStarPolicy_total:
  assumes "s = h # t"
  shows "(\<exists>d. aStarPolicy s ob gs bs rnd = Inr d)
       \<and> finite {c. isValidAStar s gs bs c}
       \<and> snd (aStarLoop s ob gs bs [(manhattanDistance h ob, 0, h, [])] {} 0)
            \<le> 1 + 4 * card (insert h {c. isValidAStar s gs bs c})
       \<and> (ob \<notin> aStarReachable s gs bs h \<longrightarrow> aStarPolicy s ob gs bs rnd = Inr rnd)"
proof -
  let ?open = "[(manhattanDistance h ob, 0, h, [])] :: entry list"
  let ?W = "insert h {c. isValidAStar s gs bs c}"
  have 1: "\<exists>d. aStarPolicy s ob gs bs rnd = Inr d"
    using assms by (simp add: aStarPolicy_def split: option.split)
  have "finite ?W" using finite_isValidAStar by simp
  moreover have "entryCell ` set ?open \<subseteq> ?W" by (simp add: entryCell_def)
  moreover have "{c. isValidAStar s gs bs c} \<subseteq> ?W" by blast
  ultimately have "snd (aStarLoop s ob gs bs ?open {} 0) \<le> 0 + length ?open + 4 * card (?W - {})"
    by (rule aStarLoop_iterations)
  then have 2: "snd (aStarLoop s ob gs bs ?open {} 0) \<le> 1 + 4 * card ?W" by simp
  have 3: "aStarPolicy s ob gs bs rnd = Inr rnd" if "ob \<notin> aStarReachable s gs bs h"
  proof -
    have "entryCell ` set ?open \<subseteq> aStarReachable s gs bs h"
      by (simp add: entryCell_def aStarReachable.origin)
    from aStarLoop_unreachable [OF this that, of "{}" 0]
    show ?thesis using assms by (simp add: aStarPolicy_def)
  qed
  from 1 2 3 finite_isValidAStar show ?thesis by blast
qed

theorem aStarPolicy_total_witness:
  "aStarPolicy [(5, 5), (5, 6), (5, 7)] (0, 0) (20, 20) {(1, 0), (0, 1)} DOWN = Inr DOWN"
  using aStarPolicy_total [OF refl, of "(5, 5)" "[(5, 6), (5, 7)]" "(0, 0)" "(20, 20)"
      "{(1, 0), (0, 1)}" DOWN] sealedOrb_unreachable
  by (simp add: sealedOrb_def)

text \<open>
  Claim C2, as stated, at a concrete state. \<open>cornerStart\<close> is well-formed and one tick
  of \<^verbatim>\<open>gameLoop\<close> leads from it to \<open>cornered\<close>. In \<open>cornered\<close> the policy steps onto the
  orb without hitting snake or barrier, the grown snake and the barrier then cover the whole
  grid, and \<^verbatim>\<open>generateOrb\<close> rejects every cell of the grid: the tick produces no new orb.
\<close>

theorem growth_tick_counterexample:
  "wellFormed cornerStart
   \<and> gameLoop heuristicPolicy UP [(2, 0)] cornerStart = Return (Running cornered)
   \<and> heuristicPolicy (snake cornered) (orb cornered) (gridSize cornered) (barriers cornered) UP
       = Inr RIGHT
   \<and> step (1, 0) RIGHT = orb cornered
   \<and> step (1, 0) RIGHT \<notin> set (snake cornered) \<and> step (1, 0) RIGHT \<notin> barriers cornered
   \<and> gameLoop heuristicPolicy UP [(0, 0), (1, 0), (2, 0)] cornered = Pending"
proof -
  have "step (1, 0) RIGHT = orb cornered" "step (1, 0) RIGHT \<notin> set (snake cornered)"
    "step (1, 0) RIGHT \<notin> barriers cornered"
    by (simp_all add: cornered_def step_def)
  then show ?thesis
    using wf_cornerStart cornerStart_tick heuristicPolicy_cornered [of UP] cornered_tick
    by blast
qed

text \<open>
  Claim C2, amended. In a tick whose new head is the orb and hits neither snake nor barrier,
  \<^verbatim>\<open>generateOrb\<close> returns exactly when one of its draws lies outside the grown snake and
  the barriers. Then the snake is the shifted snake followed by a copy of its last cell
  (one cell longer), the score is up by 99, and the new orb is the accepted draw, in
  neither the grown snake nor the barriers. When no draw is free the tick does not
  complete. A free cell of the grid exists whenever the snake before the tick has no
  repeated cell, lies in the grid and does not overlap the barriers: the cell its tail
  leaves.
\<close>

theorem growth_tick_exact:
  assumes "pol (snake g) (orb g) (gridSize g) (barriers g) rnd = Inr d"
      and "snake g = h # t"
      and "step h d \<notin> set (snake g)" and "step h d \<notin> barriers g"
      and "step h d = orb g"
      and "1 \<le> fst (gridSize g)" and "1 \<le> snd (gridSize g)"
  shows "((\<exists>c\<in>set draws. c \<notin> set (step h d # butlast (snake g)) \<and> c \<notin> barriers g) \<longrightarrow>
           (\<exists>g'. gameLoop pol rnd draws g = Return (Running g')
              \<and> snake g' = (step h d # butlast (snake g)) @ [last (step h d # butlast (snake g))]
              \<and> length (snake g') = length (snake g) + 1
              \<and> score g' = score g + 99
              \<and> orb g' \<in> set draws
              \<and> orb g' \<notin> set (snake g') \<and> orb g' \<notin> barriers g'
              \<and> barriers g' = barriers g \<and> highscore g' = highscore g))
       \<and> (\<not> (\<exists>c\<in>set draws. c \<notin> set (step h d # butlast (snake g)) \<and> c \<notin> barriers g) \<longrightarrow>
           gameLoop pol rnd draws g = Pending)
       \<and> (distinct (snake g) \<and> set (snake g) \<inter> barriers g = {}
            \<and> set (snake g) \<subseteq> {c. inBounds (gridSize g) c} \<longrightarrow>
           inBounds (gridSize g) (last (snake g))
           \<and> last (snake g) \<notin> set (step h d # butlast (snake g))
           \<and> last (snake g) \<notin> barriers g)"
proof -
  let ?s1 = "step h d # butlast (snake g)"
  let ?s2 = "?s1 @ [last ?s1]"
  have sets: "set ?s2 = set ?s1" by auto
  have yes: "\<exists>g'. gameLoop pol rnd draws g = Return (Running g')
              \<and> snake g' = ?s2 \<and> length (snake g') = length (snake g) + 1
              \<and> score g' = score g + 99 \<and> orb g' \<in> set draws
              \<and> orb g' \<notin> set (snake g') \<and> orb g' \<notin> barriers g'
              \<and> barriers g' = barriers g \<and> highscore g' = highscore g"
    if "\<exists>c\<in>set draws. c \<notin> set ?s1 \<and> c \<notin> barriers g"
  proof -
    from that have "\<exists>c\<in>set draws. c \<notin> set ?s2 \<and> c \<notin> barriers g" unfolding sets .
    from firstFree_Return [OF this] obtain c where
      c: "firstFree ?s2 (barriers g) draws = Return c" "c \<notin> set ?s2" "c \<notin> barriers g"
        "c \<in> set draws" by blast
    have gen: "generateOrb (gridSize g) ?s2 (barriers g) draws = Return c"
      using c(1) assms(6,7) by (simp add: generateOrb_def)
    have "gameLoop pol rnd draws g =
          Return (Running (g\<lparr>snake := ?s2, orb := c, score := score g - 1 + 100\<rparr>))"
      using assms(1-5) gen by (simp add: gameLoop_def Let_def)
    then show ?thesis using c(2,3,4) assms(2) by auto
  qed
  have no: "gameLoop pol rnd draws g = Pending"
    if "\<not> (\<exists>c\<in>set draws. c \<notin> set ?s1 \<and> c \<notin> barriers g)"
  proof -
    from that have "\<not> (\<exists>c\<in>set draws. c \<notin> set ?s2 \<and> c \<notin> barriers g)" unfolding sets .
    from firstFree_Pending [OF this]
    have gen: "generateOrb (gridSize g) ?s2 (barriers g) draws = Pending"
      using assms(6,7) by (simp add: generateOrb_def)
    show ?thesis using assms(1-5) gen by (simp add: gameLoop_def Let_def)
  qed
  have tail: "inBounds (gridSize g) (last (snake g)) \<and> last (snake g) \<notin> set ?s1
      \<and> last (snake g) \<notin> barriers g"
    if wf: "distinct (snake g) \<and> set (snake g) \<inter> barriers g = {}
            \<and> set (snake g) \<subseteq> {c. inBounds (gridSize g) c}"
  proof -
    have ne: "snake g \<noteq> []" using assms(2) by simp
    then have mem: "last (snake g) \<in> set (snake g)" by simp
    have "snake g = butlast (snake g) @ [last (snake g)]" using ne by simp
    then have "distinct (butlast (snake g) @ [last (snake g)])" using wf by simp
    then have "last (snake g) \<notin> set (butlast (snake g))" by simp
    moreover have "last (snake g) \<noteq> step h d" using mem assms(3) by auto
    ultimately show ?thesis using mem wf by auto
  qed
  from yes no tail show ?thesis by blast
qed

theorem growth_tick_exact_witness:
  "gameLoop heuristicPolicy UP [(5, 5), (3, 3)] orbAhead =
     Return (Running (orbAhead\<lparr>snake := [(5, 4), (5, 5), (5, 6), (5, 6)], orb := (3, 3),
                                score := 99\<rparr>))"
proof -
  have h: "snake orbAhead = (5, 5) # [(5, 6), (5, 7)]"
    "step (5, 5) UP \<notin> set (snake orbAhead)" "step (5, 5) UP \<notin> barriers orbAhead"
    "step (5, 5) UP = orb orbAhead"
    "1 \<le> fst (gridSize orbAhead)" "1 \<le> snd (gridSize orbAhead)"
    by (simp_all add: orbAhead_def step_def)
  have f: "\<exists>c\<in>set [(5, 5), (3, 3)].
        c \<notin> set (step (5, 5) UP # butlast (snake orbAhead)) \<and> c \<notin> barriers orbAhead"
    by (simp add: orbAhead_def step_def)
  from growth_tick_exact [where pol = heuristicPolicy and g = orbAhead and rnd = UP and d = UP
      and h = "(5, 5)" and t = "[(5, 6), (5, 7)]" and draws = "[(5, 5), (3, 3)]",
      OF heuristicPolicy_orbAhead h, THEN conjunct1, rule_format, OF f]
  obtain g' where "gameLoop heuristicPolicy UP [(5, 5), (3, 3)] orbAhead = Return (Running g')"
    by blast
  moreover have "heuristicPolicy [(5, 5), (5, 6), (5, 7)] (5, 4) (20, 20) {} UP = Inr UP"
    using heuristicPolicy_orbAhead [of UP] by (simp add: orbAhead_def)
  ultimately show ?thesis
    by (simp add: gameLoop_def orbAhead_def Let_def generateOrb_def step_def)
qed

text \<open>
  Claim C4. When some direction leads to a cell in bounds that is neither a barrier nor in
  \<^verbatim>\<open>snake[:-1]\<close>, \<^verbatim>\<open>hybridPolicy\<close> returns such a direction, and the tuple of the flood
  fill area from its cell, the Manhattan distance of its cell to the tail (0 for a snake of
  one cell) and the negated Manhattan distance of its cell to the orb is greatest in the
  lexicographic order among all such directions; in particular none of them has a larger
  flood fill area, whatever the distances to the orb are.
\<close>

theorem hybridPolicy_lexmax:
  assumes "s = h # t"
    and "\<exists>d. inBounds gs (step h d) \<and> step h d \<notin> set (butlast s) \<and> step h d \<notin> bs"
  shows "\<exists>d. hybridPolicy s ob gs bs rnd = Inr d
           \<and> inBounds gs (step h d) \<and> step h d \<notin> set (butlast s) \<and> step h d \<notin> bs
           \<and> (\<forall>d'. inBounds gs (step h d') \<and> step h d' \<notin> set (butlast s) \<and> step h d' \<notin> bs
                \<longrightarrow>
                 (floodFillArea s gs bs (step h d'),
                  (if 1 < length s then manhattanDistance (step h d') (last s) else 0),
                  - manhattanDistance (step h d') ob)
                 \<le> (floodFillArea s gs bs (step h d),
                     (if 1 < length s then manhattanDistance (step h d) (last s) else 0),
                     - manhattanDistance (step h d) ob))
           \<and> (\<forall>d'. inBounds gs (step h d') \<and> step h d' \<notin> set (butlast s) \<and> step h d' \<notin> bs
                \<longrightarrow> floodFillArea s gs bs (step h d') \<le> floodFillArea s gs bs (step h d))"
proof -
  let ?vm = "validMovesHybrid s ob gs bs h"
  let ?e = "\<lambda>d. (d, proximityScore ob h d, areaScore s gs bs h d, tailDistance s h d)"
  let ?key = "\<lambda>d. (floodFillArea s gs bs (step h d),
                  (if 1 < length s then manhattanDistance (step h d) (last s) else 0),
                  - manhattanDistance (step h d) ob)"
  let ?valid = "\<lambda>d. inBounds gs (step h d) \<and> step h d \<notin> set (butlast s) \<and> step h d \<notin> bs"
  have valid: "isValidHybrid s gs bs (step h d) \<longleftrightarrow> ?valid d" for d
    by (simp add: isValidHybrid_def)
  from assms(2) obtain d0 where d0: "?valid d0" by blast
  have mem: "x \<in> set ?vm \<longleftrightarrow> ?valid (fst x) \<and> x = ?e (fst x)" for x
    unfolding valid [symmetric] by (auto simp: validMovesHybrid_def set_directions)
  have key: "hybridKey (?e d) = ?key d" for d
    by (simp add: hybridKey_def areaScore_def tailDistance_def proximityScore_def)
  have "?e d0 \<in> set ?vm" using d0 mem [of "?e d0"] by simp
  then have "?vm \<noteq> []" by auto
  then obtain m ms where vm: "?vm = m # ms" by (cases ?vm) auto
  let ?b = "maxBy hybridKey m ms"
  have res: "hybridPolicy s ob gs bs rnd = Inr (fst ?b)"
    using assms(1) vm by (simp add: hybridPolicy_def)
  have "?b \<in> set ?vm" using maxBy_in[of hybridKey m ms] vm by simp
  then have b: "?valid (fst ?b)" "?b = ?e (fst ?b)"
    using mem[of ?b] by simp_all
  have best: "?key d' \<le> ?key (fst ?b)" if "?valid d'" for d'
  proof -
    have "?e d' \<in> set (m # ms)" using that mem[of "?e d'"] vm by simp
    from maxBy_ge[OF this, of hybridKey] have "hybridKey (?e d') \<le> hybridKey (?e (fst ?b))"
      using b(2) by simp
    then show ?thesis unfolding key .
  qed
  have area: "floodFillArea s gs bs (step h d') \<le> floodFillArea s gs bs (step h (fst ?b))"
    if "?valid d'" for d'
    using best[OF that] by (auto simp: less_eq_prod_def)
  show ?thesis
    apply (rule exI[of _ "fst ?b"])
    using res b(1) best area by blast
qed

theorem hybridPolicy_lexmax_witness:
  "hybridPolicy [(1, 1), (1, 2), (2, 2), (2, 1)] (10, 10) (20, 20)
      {(0, 0), (2, 0), (0, 1), (3, 0), (4, 1), (3, 2)} UP = Inr RIGHT
   \<and> inBounds (20, 20) (step (1, 1) RIGHT)"
proof -
  let ?s = "[(1, 1), (1, 2), (2, 2), (2, 1)] :: cell list"
  let ?bs = "{(0, 0), (2, 0), (0, 1), (3, 0), (4, 1), (3, 2)} :: cell set"
  have v: "\<exists>d. inBounds (20, 20) (step (1, 1) d) \<and> step (1, 1) d \<notin> set (butlast ?s)
      \<and> step (1, 1) d \<notin> ?bs"
    by (rule exI [of _ UP]) (simp add: inBounds_def step_def)
  from hybridPolicy_lexmax [OF refl v, of "(10, 10)" UP]
  obtain d where "hybridPolicy ?s (10, 10) (20, 20) ?bs UP = Inr d
      \<and> inBounds (20, 20) (step (1, 1) d)"
    by blast
  then show ?thesis
    using hybridPolicy_pocketTrap [of UP] by (simp add: pocketTrap_def)
qed

text \<open>
  Claim C1. When head and orb are different cells of the grid and no snake cell other than
  the head and no barrier lies on a shortest path between them, the direction that
  \<^verbatim>\<open>aStarPolicy\<close> returns brings the head one closer to the orb in Manhattan distance. With
  \<open>d\<close> that distance: after fewer than \<open>d\<close> ticks of \<^verbatim>\<open>gameLoop\<close> the game is
  running, the orb is unchanged and the head is as many cells closer as ticks have passed.
  After \<open>d - 1\<close> ticks the head is next to the orb and the policy steps onto it, so tick
  \<open>d\<close> takes the orb branch: it returns, with the head on the orb, the snake one cell
  longer and 100 added, as soon as one draw of \<^verbatim>\<open>generateOrb\<close> is outside the grown snake
  and the barriers, and is still drawing otherwise. For a snake without repeated cells that
  lies in the grid off the barriers, the cell its tail leaves in tick \<open>d\<close> is such a cell
  of the grid.
\<close>

theorem aStar_reaches_orb:
  assumes "snake g = h # t" and "inBounds (gridSize g) h" and "inBounds (gridSize g) (orb g)"
    and "h \<noteq> orb g" and "unobstructed (snake g) (orb g) (barriers g) h"
  shows "(\<exists>d. aStarPolicy (snake g) (orb g) (gridSize g) (barriers g) rnd = Inr d
            \<and> manhattanDistance (step h d) (orb g) = manhattanDistance h (orb g) - 1)
       \<and> (\<forall>os. int (length os) < manhattanDistance h (orb g) \<longrightarrow>
            (\<exists>g'. run aStarPolicy os g = Return (Running g') \<and> orb g' = orb g
               \<and> manhattanDistance (hd (snake g')) (orb g)
                    = manhattanDistance h (orb g) - int (length os)
               \<and> score g' = score g - int (length os)))
       \<and> (\<forall>os. int (length os) = manhattanDistance h (orb g) \<longrightarrow>
            (\<exists>g1. run aStarPolicy (butlast os) g = Return (Running g1)
               \<and> orb g1 = orb g \<and> barriers g1 = barriers g
               \<and> length (snake g1) = length (snake g)
               \<and> manhattanDistance (hd (snake g1)) (orb g) = 1
               \<and> (\<exists>d. aStarPolicy (snake g1) (orb g) (gridSize g) (barriers g) (fst (last os))
                          = Inr d
                      \<and> step (hd (snake g1)) d = orb g)
               \<and> ((\<exists>c\<in>set (snd (last os)).
                       c \<notin> set (orb g # butlast (snake g1)) \<and> c \<notin> barriers g) \<longrightarrow>
                    (\<exists>g'. run aStarPolicy os g = Return (Running g')
                       \<and> snake g' = (orb g # butlast (snake g1))
                                       @ [last (orb g # butlast (snake g1))]
                       \<and> hd (snake g') = orb g
                       \<and> length (snake g') = length (snake g) + 1
                       \<and> score g' = score g - manhattanDistance h (orb g) + 100))
               \<and> (\<not> (\<exists>c\<in>set (snd (last os)).
                       c \<notin> set (orb g # butlast (snake g1)) \<and> c \<notin> barriers g) \<longrightarrow>
                    run aStarPolicy os g = Pending)
               \<and> (distinct (snake g) \<and> set (snake g) \<inter> barriers g = {}
                    \<and> set (snake g) \<subseteq> {c. inBounds (gridSize g) c} \<longrightarrow>
                    inBounds (gridSize g) (last (snake g1))
                    \<and> last (snake g1) \<notin> set (orb g # butlast (snake g1))
                    \<and> last (snake g1) \<notin> barriers g)))"
proof -
  let ?ob = "orb g" and ?D = "manhattanDistance h (orb g)"
  have Dpos: "0 < ?D" using assms(4) md_zero_iff [of h ?ob] md_nonneg [of h ?ob] by linarith
  note approach = aStar_run_closer [OF assms(1,2,3,5)]
  have 1: "\<exists>d. aStarPolicy (snake g) ?ob (gridSize g) (barriers g) rnd = Inr d
            \<and> manhattanDistance (step h d) ?ob = ?D - 1"
    by (rule aStarPolicy_toward [OF assms(1,4,2,3,5)])
  have 2: "\<exists>g'. run aStarPolicy os g = Return (Running g') \<and> orb g' = ?ob
               \<and> manhattanDistance (hd (snake g')) ?ob = ?D - int (length os)
               \<and> score g' = score g - int (length os)"
    if "int (length os) < ?D" for os
  proof -
    from approach [OF that] obtain g' h' t' where
      "run aStarPolicy os g = Return (Running g')" "orb g' = ?ob" "snake g' = h' # t'"
      "score g' = score g - int (length os)"
      "manhattanDistance h' ?ob = ?D - int (length os)" by blast
    then show ?thesis by auto
  qed
  have 3: "\<exists>g1. run aStarPolicy (butlast os) g = Return (Running g1)
               \<and> orb g1 = ?ob \<and> barriers g1 = barriers g
               \<and> length (snake g1) = length (snake g)
               \<and> manhattanDistance (hd (snake g1)) ?ob = 1
               \<and> (\<exists>d. aStarPolicy (snake g1) ?ob (gridSize g) (barriers g) (fst (last os))
                          = Inr d
                      \<and> step (hd (snake g1)) d = ?ob)
               \<and> ((\<exists>c\<in>set (snd (last os)).
                       c \<notin> set (?ob # butlast (snake g1)) \<and> c \<notin> barriers g) \<longrightarrow>
                    (\<exists>g'. run aStarPolicy os g = Return (Running g')
                       \<and> snake g' = (?ob # butlast (snake g1))
                                       @ [last (?ob # butlast (snake g1))]
                       \<and> hd (snake g') = ?ob
                       \<and> length (snake g') = length (snake g) + 1
                       \<and> score g' = score g - ?D + 100))
               \<and> (\<not> (\<exists>c\<in>set (snd (last os)).
                       c \<notin> set (?ob # butlast (snake g1)) \<and> c \<notin> barriers g) \<longrightarrow>
                    run aStarPolicy os g = Pending)
               \<and> (distinct (snake g) \<and> set (snake g) \<inter> barriers g = {}
                    \<and> set (snake g) \<subseteq> {c. inBounds (gridSize g) c} \<longrightarrow>
                    inBounds (gridSize g) (last (snake g1))
                    \<and> last (snake g1) \<notin> set (?ob # butlast (snake g1))
                    \<and> last (snake g1) \<notin> barriers g)"
    if len: "int (length os) = ?D" for os
  proof -
    have ne: "os \<noteq> []" using len Dpos by auto
    let ?rs = "butlast os" and ?r = "last os"
    have os: "os = ?rs @ [?r]" using ne by simp
    have lrs: "int (length ?rs) = ?D - 1" using len ne by (simp add: of_nat_diff Suc_leI)
    then have "int (length ?rs) < ?D" by simp
    from approach [OF this] obtain g1 h1 t1 where
      g1: "run aStarPolicy ?rs g = Return (Running g1)"
        "orb g1 = ?ob" "barriers g1 = barriers g" "gridSize g1 = gridSize g"
        "snake g1 = h1 # t1" "length (snake g1) = length (snake g)"
        "score g1 = score g - int (length ?rs)"
        "manhattanDistance h1 ?ob = ?D - int (length ?rs)"
        "inBounds (gridSize g) h1"
        "unobstructed (snake g1) ?ob (barriers g) h1"
        "distinct (snake g) \<longrightarrow> distinct (snake g1)"
        "set (snake g) \<inter> barriers g = {} \<longrightarrow> set (snake g1) \<inter> barriers g = {}"
        "set (snake g) \<subseteq> {c. inBounds (gridSize g) c}
           \<longrightarrow> set (snake g1) \<subseteq> {c. inBounds (gridSize g) c}"
      by blast
    have hd1: "hd (snake g1) = h1" using g1(5) by simp
    have one: "manhattanDistance h1 (orb g1) = 1" using g1(2,8) lrs by simp
    have e2: "inBounds (gridSize g1) h1" using g1(4,9) by simp
    have e3: "inBounds (gridSize g1) (orb g1)" using g1(2,4) assms(3) by simp
    have e4: "unobstructed (snake g1) (orb g1) (barriers g1) h1" using g1(2,3,10) by simp
    note lands = aStar_tick_lands [OF g1(5) e2 e3 e4 one, of "fst ?r" "snd ?r",
        unfolded g1(2) g1(3) g1(4)]
    from lands have pol: "\<exists>d. aStarPolicy (snake g1) ?ob (gridSize g) (barriers g) (fst ?r) = Inr d
        \<and> step h1 d = ?ob"
      and obfree: "?ob \<notin> set (snake g1)" "?ob \<notin> barriers g"
      by blast+
    let ?s1 = "?ob # butlast (snake g1)"
    let ?s2 = "?s1 @ [last ?s1]"
    have runeq: "run aStarPolicy os g = gameLoop aStarPolicy (fst ?r) (snd ?r) g1"
      using run_snoc [of aStarPolicy ?rs ?r g] g1(1) os by simp
    have yes: "\<exists>g'. run aStarPolicy os g = Return (Running g') \<and> snake g' = ?s2
        \<and> hd (snake g') = ?ob \<and> length (snake g') = length (snake g) + 1
        \<and> score g' = score g - ?D + 100"
      if "\<exists>c\<in>set (snd ?r). c \<notin> set ?s1 \<and> c \<notin> barriers g"
    proof -
      from lands that obtain c where
        "gameLoop aStarPolicy (fst ?r) (snd ?r) g1
           = Return (Running (g1\<lparr>snake := ?s2, orb := c, score := score g1 + 99\<rparr>))"
        by blast
      then have r: "run aStarPolicy os g
           = Return (Running (g1\<lparr>snake := ?s2, orb := c, score := score g1 + 99\<rparr>))"
        using runeq by simp
      have "length (butlast (snake g1)) = length t1" unfolding g1(5) by simp
      moreover have "length (snake g) = length t1 + 1" using g1(6) unfolding g1(5) by simp
      ultimately have "length ?s2 = length (snake g) + 1" by simp
      moreover have "score g1 + 99 = score g - ?D + 100" using g1(7) lrs by simp
      ultimately show ?thesis using r by (simp del: butlast.simps last.simps)
    qed
    have no: "run aStarPolicy os g = Pending"
      if "\<not> (\<exists>c\<in>set (snd ?r). c \<notin> set ?s1 \<and> c \<notin> barriers g)"
      using lands that runeq by simp
    have tail: "inBounds (gridSize g) (last (snake g1)) \<and> last (snake g1) \<notin> set ?s1
        \<and> last (snake g1) \<notin> barriers g"
      if wf: "distinct (snake g) \<and> set (snake g) \<inter> barriers g = {}
                    \<and> set (snake g) \<subseteq> {c. inBounds (gridSize g) c}"
    proof -
      have d: "distinct (snake g1)" and b: "set (snake g1) \<inter> barriers g = {}"
        and i: "set (snake g1) \<subseteq> {c. inBounds (gridSize g) c}"
        using wf g1(11,12,13) by blast+
      have ne1: "snake g1 \<noteq> []" using g1(5) by simp
      then have mem: "last (snake g1) \<in> set (snake g1)" by simp
      have "snake g1 = butlast (snake g1) @ [last (snake g1)]" using ne1 by simp
      then have "distinct (butlast (snake g1) @ [last (snake g1)])" using d by simp
      then have "last (snake g1) \<notin> set (butlast (snake g1))" by simp
      moreover have "last (snake g1) \<noteq> ?ob" using mem obfree(1) by auto
      ultimately show ?thesis using mem b i by auto
    qed
    show ?thesis
      apply (rule exI [of _ g1])
      using g1(1,2,3,6) one pol yes no tail unfolding hd1 g1(2) by blast
  qed
  from 1 2 3 show ?thesis by blast
qed

theorem aStar_reaches_orb_witness:
  "\<exists>g'. run aStarPolicy [(DOWN, []), (DOWN, []), (DOWN, [(3, 0), (0, 0)])] corridor
           = Return (Running g')
         \<and> hd (snake g') = (3, 0) \<and> length (snake g') = 2 \<and> score g' = 97"
proof -
  let ?os = "[(DOWN, []), (DOWN, []), (DOWN, [(3, 0), (0, 0)])] :: (direction \<times> cell list) list"
  have a: "snake corridor = (0, 0) # []"
    "inBounds (gridSize corridor) (0, 0)"
    "inBounds (gridSize corridor) (orb corridor)"
    "(0, 0) \<noteq> orb corridor"
    by (simp_all add: corridor_def inBounds_def)
  have d: "int (length ?os) = manhattanDistance (0, 0) (orb corridor)"
    by (simp add: corridor_def manhattanDistance_def)
  from aStar_reaches_orb [OF a unobstructed_corridor, of DOWN,
      THEN conjunct2, THEN conjunct2, rule_format, OF d]
  obtain g1 where all: "run aStarPolicy (butlast ?os) corridor = Return (Running g1)
      \<and> orb g1 = orb corridor \<and> barriers g1 = barriers corridor
      \<and> length (snake g1) = length (snake corridor)
      \<and> manhattanDistance (hd (snake g1)) (orb corridor) = 1
      \<and> (\<exists>d. aStarPolicy (snake g1) (orb corridor) (gridSize corridor) (barriers corridor)
                 (fst (last ?os)) = Inr d
             \<and> step (hd (snake g1)) d = orb corridor)
      \<and> ((\<exists>c\<in>set (snd (last ?os)).
              c \<notin> set (orb corridor # butlast (snake g1)) \<and> c \<notin> barriers corridor) \<longrightarrow>
           (\<exists>g'. run aStarPolicy ?os corridor = Return (Running g')
              \<and> snake g' = (orb corridor # butlast (snake g1))
                              @ [last (orb corridor # butlast (snake g1))]
              \<and> hd (snake g') = orb corridor
              \<and> length (snake g') = length (snake corridor) + 1
              \<and> score g' = score corridor - manhattanDistance (0, 0) (orb corridor) + 100))
      \<and> (\<not> (\<exists>c\<in>set (snd (last ?os)).
              c \<notin> set (orb corridor # butlast (snake g1)) \<and> c \<notin> barriers corridor) \<longrightarrow>
           run aStarPolicy ?os corridor = Pending)
      \<and> (distinct (snake corridor) \<and> set (snake corridor) \<inter> barriers corridor = {}
           \<and> set (snake corridor) \<subseteq> {c. inBounds (gridSize corridor) c} \<longrightarrow>
           inBounds (gridSize corridor) (last (snake g1))
           \<and> last (snake g1) \<notin> set (orb corridor # butlast (snake g1))
           \<and> last (snake g1) \<notin> barriers corridor)" ..
  from all have g1a: "length (snake g1) = length (snake corridor)" by (elim conjE)
  from all have g1b: "(\<exists>c\<in>set (snd (last ?os)).
        c \<notin> set (orb corridor # butlast (snake g1)) \<and> c \<notin> barriers corridor) \<longrightarrow>
       (\<exists>g'. run aStarPolicy ?os corridor = Return (Running g')
          \<and> snake g' = (orb corridor # butlast (snake g1))
                          @ [last (orb corridor # butlast (snake g1))]
          \<and> hd (snake g') = orb corridor
          \<and> length (snake g') = length (snake corridor) + 1
          \<and> score g' = score corridor - manhattanDistance (0, 0) (orb corridor) + 100)"
    by (elim conjE)
  note g1 = g1a g1b
  have "length (snake g1) = 1" using g1(1) by (simp add: corridor_def)
  then have "butlast (snake g1) = []" by (cases "snake g1") auto
  then have "\<exists>c\<in>set (snd (last ?os)).
        c \<notin> set (orb corridor # butlast (snake g1)) \<and> c \<notin> barriers corridor"
    by (simp add: corridor_def)
  with g1(2) obtain g' where "run aStarPolicy ?os corridor = Return (Running g')"
    "hd (snake g') = orb corridor" "length (snake g') = length (snake corridor) + 1"
    "score g' = score corridor - manhattanDistance (0, 0) (orb corridor) + 100"
    by blast
  moreover have "orb corridor = (3, 0)" "length (snake corridor) + 1 = 2"
    "score corridor - manhattanDistance (0, 0) (orb corridor) + 100 = 97"
    by (simp_all add: corridor_def manhattanDistance_def)
  ultimately show ?thesis by auto
qed

text \<open>
  Claim C9, as stated, at a concrete state. After \<^verbatim>\<open>resetGame\<close> has returned, the snake is
  not the three-cell start configuration and the score is not 0: \<^verbatim>\<open>resetGame\<close> ends with a
  call of \<^verbatim>\<open>gameLoop\<close>, which has moved the snake and charged the move.
\<close>

theorem reset_restores_counterexample:
  "resetGame heuristicPolicy [(3, 0, 0), (3, 3, 0)] [(5, 5), (4, 1), (6, 6)] UP [] lostGame
     = Return (Running afterReset)
   \<and> snake afterReset \<noteq> [(5, 5), (5, 6), (5, 7)] \<and> score afterReset \<noteq> 0"
  using lostGame_reset by (simp add: afterReset_def lostGame_def)

text \<open>
  Claim C9, amended. \<^verbatim>\<open>resetGame\<close> sets the snake to [(5,5),(5,6),(5,7)], the score to 0,
  barriers and orb to what the generators return, leaves the high score alone, and then
  runs one tick of \<^verbatim>\<open>gameLoop\<close> on that state. So when it returns with the game running,
  the high score is the old one, and either the score is -1 and the snake is the start
  snake moved by one cell, or the score is 99 and the snake has also grown; when that first
  tick collides, the snake is the start snake, the score is -1 and the high score is the
  maximum of the old one and -1.
\<close>

theorem resetGame_runs_tick:
  "(\<forall>bars orb'.
       generateBarriers (gridSize g) [(5, 5), (5, 6), (5, 7)] (0, 0) barrierDraws = Return bars
       \<and> generateOrb (gridSize g) [(5, 5), (5, 6), (5, 7)] bars orbDraws = Return orb' \<longrightarrow>
       resetGame pol barrierDraws orbDraws rnd draws g
         = gameLoop pol rnd draws
             (g\<lparr>snake := [(5, 5), (5, 6), (5, 7)], barriers := bars, orb := orb', score := 0\<rparr>))
   \<and> (\<forall>g'. resetGame pol barrierDraws orbDraws rnd draws g = Return (GameOver g') \<longrightarrow>
         snake g' = [(5, 5), (5, 6), (5, 7)] \<and> score g' = -1
         \<and> highscore g' = max (highscore g) (-1))
   \<and> (\<forall>g'. resetGame pol barrierDraws orbDraws rnd draws g = Return (Running g') \<longrightarrow>
         highscore g' = highscore g
         \<and> ((score g' = -1 \<and> (\<exists>d. snake g' = [step (5, 5) d, (5, 5), (5, 6)]))
            \<or> (score g' = 99 \<and> (\<exists>d. snake g' = [step (5, 5) d, (5, 5), (5, 6), (5, 6)]))))"
proof -
  let ?start = "[(5, 5), (5, 6), (5, 7)] :: cell list"
  have 1: "resetGame pol barrierDraws orbDraws rnd draws g
         = gameLoop pol rnd draws (g\<lparr>snake := ?start, barriers := bars, orb := orb', score := 0\<rparr>)"
    if "generateBarriers (gridSize g) ?start (0, 0) barrierDraws = Return bars
       \<and> generateOrb (gridSize g) ?start bars orbDraws = Return orb'" for bars orb'
    using that by (simp add: resetGame_def resetState_def startSnake_def)
  have inv: "\<exists>bars orb'. gameLoop pol rnd draws
       (g\<lparr>snake := ?start, barriers := bars, orb := orb', score := 0\<rparr>) = Return x"
    if "resetGame pol barrierDraws orbDraws rnd draws g = Return x" for x
  proof (cases "generateBarriers (gridSize g) ?start (0, 0) barrierDraws")
    case (Return bars)
    show ?thesis
    proof (cases "generateOrb (gridSize g) ?start bars orbDraws")
      case r2: (Return orb')
      have "resetGame pol barrierDraws orbDraws rnd draws g = gameLoop pol rnd draws
          (g\<lparr>snake := ?start, barriers := bars, orb := orb', score := 0\<rparr>)"
        using Return r2 by (simp add: resetGame_def resetState_def startSnake_def)
      then show ?thesis using that by metis
    next
      case Pending
      then show ?thesis using that Return
        by (simp add: resetGame_def resetState_def startSnake_def)
    next
      case (Raise e)
      then show ?thesis using that Return
        by (simp add: resetGame_def resetState_def startSnake_def)
    qed
  next
    case Pending
    then show ?thesis using that by (simp add: resetGame_def resetState_def startSnake_def)
  next
    case (Raise e)
    then show ?thesis using that by (simp add: resetGame_def resetState_def startSnake_def)
  qed
  have 2: "snake g' = ?start \<and> score g' = -1 \<and> highscore g' = max (highscore g) (-1)"
    if "resetGame pol barrierDraws orbDraws rnd draws g = Return (GameOver g')" for g'
  proof -
    from inv [OF that] obtain bars orb' where
      "gameLoop pol rnd draws (g\<lparr>snake := ?start, barriers := bars, orb := orb', score := 0\<rparr>)
         = Return (GameOver g')" by auto
    from gameLoop_GameOver [OF this] show ?thesis by simp
  qed
  have 3: "highscore g' = highscore g
         \<and> ((score g' = -1 \<and> (\<exists>d. snake g' = [step (5, 5) d, (5, 5), (5, 6)]))
            \<or> (score g' = 99 \<and> (\<exists>d. snake g' = [step (5, 5) d, (5, 5), (5, 6), (5, 6)])))"
    if "resetGame pol barrierDraws orbDraws rnd draws g = Return (Running g')" for g'
  proof -
    from inv [OF that] obtain bars orb' where
      "gameLoop pol rnd draws (g\<lparr>snake := ?start, barriers := bars, orb := orb', score := 0\<rparr>)
         = Return (Running g')" by auto
    from gameLoop_Running [OF this, of "(5, 5)" "[(5, 6), (5, 7)]"] obtain d where
      "g' = g\<lparr>snake := ?start, barriers := bars, orb := orb', score := 0\<rparr>
              \<lparr>snake := step (5, 5) d # butlast ?start, score := 0 - 1\<rparr>
       \<or> (\<exists>c. g' = g\<lparr>snake := ?start, barriers := bars, orb := orb', score := 0\<rparr>
              \<lparr>snake := (step (5, 5) d # butlast ?start) @ [last (step (5, 5) d # butlast ?start)],
               orb := c, score := 0 - 1 + 100\<rparr>)"
      by auto
    then show ?thesis by auto
  qed
  from 1 2 3 show ?thesis by blast
qed

theorem resetGame_runs_tick_witness:
  "\<exists>g'. resetGame heuristicPolicy [(3, 0, 0), (3, 3, 0)] [(5, 5), (4, 1), (6, 6)] UP [] lostGame
           = Return (Running g')
         \<and> highscore g' = 193 \<and> score g' = -1 \<and> snake g' = [(6, 5), (5, 5), (5, 6)]"
proof -
  let ?g' = "lostGame\<lparr>snake := [(6, 5), (5, 5), (5, 6)],
          barriers := {(0, 1), (0, 2), (1, 0), (1, 1), (1, 2), (2, 0), (2, 1), (2, 2),
                       (3, 0), (3, 1), (3, 2), (4, 0), (4, 1), (4, 2), (5, 0), (5, 1)},
          orb := (6, 6), score := -1\<rparr>"
  from resetGame_runs_tick [of lostGame "[(3, 0, 0), (3, 3, 0)]" "[(5, 5), (4, 1), (6, 6)]"
      heuristicPolicy UP "[]", THEN conjunct2, THEN conjunct2, rule_format, OF lostGame_reset]
  have "highscore ?g' = highscore lostGame" by blast
  then have "highscore ?g' = 193" by (simp add: lostGame_def)
  then show ?thesis using lostGame_reset by (intro exI [of _ ?g']) simp
qed

end
